theory Spec2Isabelle
  imports Main "HOL-Library.Char_ord" "HOL-Library.List_Lexorder"
begin

section \<open>Python values and exceptions\<close>

text \<open>
  The exceptions that the modelled code can meet. \<open>OverflowError\<close> is what
  \<^verbatim>\<open>datetime\<close> arithmetic raises when a date leaves the years 1 to 9999,
  \<open>TypeError\<close> what Python raises on an operation the operand does not support,
  \<open>KeyError\<close> what a \<^verbatim>\<open>dict\<close> raises for a key it does not hold.
  The remaining three are what the news client's \<^verbatim>\<open>get_everything\<close> raises:
  \<open>ValueError\<close> when it rejects an argument before sending anything,
  \<open>RequestException\<close> when the HTTP request fails, and \<open>NewsAPIException\<close> when the
  server has answered with an error status.
\<close>

datatype exn =
  OverflowError | TypeError | KeyError | ValueError | RequestException | NewsAPIException

text \<open>
  Decoded JSON, as \<^verbatim>\<open>json.load\<close> returns it. An object is a Python \<^verbatim>\<open>dict\<close>:
  an association list in insertion order whose keys are distinct. Numbers with a
  fraction or an exponent (Python floats) are not represented.
\<close>

datatype jv =
    JNull
  | JBool bool
  | JInt int
  | JStr string
  | JArr "jv list"
  | JObj "(string \<times> jv) list"

text \<open>\<^verbatim>\<open>k in d\<close>, \<^verbatim>\<open>d.get(k)\<close> and \<^verbatim>\<open>d[k] = v\<close> on a \<^verbatim>\<open>dict\<close>.\<close>

definition dict_has :: "(string \<times> 'v) list \<Rightarrow> string \<Rightarrow> bool" where
  "dict_has d k = (k \<in> set (map fst d))"

definition dict_get :: "(string \<times> 'v) list \<Rightarrow> string \<Rightarrow> 'v option" where
  "dict_get d k = map_of d k"

fun dict_set :: "string \<Rightarrow> 'v \<Rightarrow> (string \<times> 'v) list \<Rightarrow> (string \<times> 'v) list" where
  "dict_set k v [] = [(k, v)]"
| "dict_set k v ((k', v') # d) =
     (if k' = k then (k, v) # d else (k', v') # dict_set k v d)"

section \<open>Calendar dates\<close>

text \<open>
  A \<^verbatim>\<open>datetime.date\<close>: year, month and day of the proleptic Gregorian calendar.
  Python's dates span 0001-01-01 to 9999-12-31.
\<close>

record date =
  year :: nat
  month :: nat
  day :: nat

definition is_leap :: "nat \<Rightarrow> bool" where
  "is_leap y = (y mod 4 = 0 \<and> (y mod 100 \<noteq> 0 \<or> y mod 400 = 0))"

definition days_in_month :: "nat \<Rightarrow> nat \<Rightarrow> nat" where
  "days_in_month y m =
     (if m = 2 then (if is_leap y then 29 else 28)
      else if m = 4 \<or> m = 6 \<or> m = 9 \<or> m = 11 then 30 else 31)"

definition valid_date :: "date \<Rightarrow> bool" where
  "valid_date d =
     (1 \<le> year d \<and> year d \<le> 9999 \<and> 1 \<le> month d \<and> month d \<le> 12 \<and>
      1 \<le> day d \<and> day d \<le> days_in_month (year d) (month d))"

text \<open>Chronological order of dates.\<close>

definition date_less :: "date \<Rightarrow> date \<Rightarrow> bool" where
  "date_less a b =
     (year a < year b \<or> (year a = year b \<and>
        (month a < month b \<or> (month a = month b \<and> day a < day b))))"

definition date_le :: "date \<Rightarrow> date \<Rightarrow> bool" where
  "date_le a b = (date_less a b \<or> (year a = year b \<and> month a = month b \<and> day a = day b))"

text \<open>The day before and the day after; \<open>None\<close> where the calendar ends.\<close>

definition prev_day :: "date \<Rightarrow> date option" where
  "prev_day d =
     (if 1 < day d then Some (d\<lparr>day := day d - 1\<rparr>)
      else if 1 < month d
        then Some (d\<lparr>month := month d - 1, day := days_in_month (year d) (month d - 1)\<rparr>)
      else if 1 < year d then Some (d\<lparr>year := year d - 1, month := 12, day := 31\<rparr>)
      else None)"

definition next_day :: "date \<Rightarrow> date option" where
  "next_day d =
     (if day d < days_in_month (year d) (month d) then Some (d\<lparr>day := day d + 1\<rparr>)
      else if month d < 12 then Some (d\<lparr>month := month d + 1, day := 1\<rparr>)
      else if year d < 9999 then Some (d\<lparr>year := year d + 1, month := 1, day := 1\<rparr>)
      else None)"

fun days_earlier :: "nat \<Rightarrow> date \<Rightarrow> date option" where
  "days_earlier 0 d = Some d"
| "days_earlier (Suc n) d =
     (case prev_day d of None \<Rightarrow> None | Some p \<Rightarrow> days_earlier n p)"

fun days_later :: "nat \<Rightarrow> date \<Rightarrow> date option" where
  "days_later 0 d = Some d"
| "days_later (Suc n) d =
     (case next_day d of None \<Rightarrow> None | Some p \<Rightarrow> days_later n p)"

text \<open>
  \<^verbatim>\<open>now - timedelta(days=n)\<close>, on the date of \<^verbatim>\<open>now\<close>. The constructor
  \<^verbatim>\<open>timedelta\<close> raises \<open>OverflowError\<close> beyond 999999999 days, and so does the
  subtraction when the result is not a date of the calendar.
\<close>

definition minus_days :: "date \<Rightarrow> int \<Rightarrow> exn + date" where
  "minus_days d n =
     (if 999999999 < \<bar>n\<bar> then Inl OverflowError
      else case (if 0 \<le> n then days_earlier (nat n) d else days_later (nat (- n)) d) of
             None \<Rightarrow> Inl OverflowError
           | Some r \<Rightarrow> Inr r)"

text \<open>
  \<^verbatim>\<open>date.isoformat()\<close>, which is \<^verbatim>\<open>"%04d-%02d-%02d" % (year, month, day)\<close>.
  The code also formats with \<^verbatim>\<open>strftime("%Y-%m-%d")\<close>, which gives the same string
  for years of four digits.
\<close>

definition digit :: "nat \<Rightarrow> char" where
  "digit n = char_of (48 + n mod 10)"

definition pad2 :: "nat \<Rightarrow> string" where
  "pad2 n = [digit (n div 10), digit n]"

definition pad4 :: "nat \<Rightarrow> string" where
  "pad4 n = pad2 (n div 100) @ pad2 (n mod 100)"

definition isoformat :: "date \<Rightarrow> string" where
  "isoformat d = pad4 (year d) @ ''-'' @ pad2 (month d) @ ''-'' @ pad2 (day d)"

section \<open>The usage ledger\<close>

text \<open>
  The file \<^verbatim>\<open>data/.api_usage.json\<close>: absent, present but not decodable (opening it
  or \<^verbatim>\<open>json.load\<close> raises), or holding a JSON value.
\<close>

datatype store = Missing | Garbled | Content jv

text \<open>Lines 146 to 152: an absent or undecodable file is the empty mapping.\<close>

definition load_usage :: "store \<Rightarrow> jv" where
  "load_usage s = (case s of Missing \<Rightarrow> JObj [] | Garbled \<Rightarrow> JObj [] | Content j \<Rightarrow> j)"

text \<open>\<^verbatim>\<open>v + 1\<close>: defined on integers and on booleans (which are integers in Python).\<close>

fun plus_one :: "jv \<Rightarrow> exn + jv" where
  "plus_one (JInt n) = Inr (JInt (n + 1))"
| "plus_one (JBool b) = Inr (JInt ((if b then 1 else 0) + 1))"
| "plus_one _ = Inl TypeError"

text \<open>
  Lines 155 to 157. On a value that is not a \<^verbatim>\<open>dict\<close> the membership test or the
  item assignment that follows it raises \<open>TypeError\<close>.
\<close>

fun count_today :: "string \<Rightarrow> jv \<Rightarrow> exn + (string \<times> jv) list" where
  "count_today today (JObj usage_data) =
     (let usage_data = (if \<not> dict_has usage_data today
                        then dict_set today (JInt 0) usage_data else usage_data)
      in case dict_get usage_data today of
           None \<Rightarrow> Inl KeyError
         | Some v \<Rightarrow> (case plus_one v of
                        Inl e \<Rightarrow> Inl e
                      | Inr v' \<Rightarrow> Inr (dict_set today v' usage_data)))"
| "count_today today _ = Inl TypeError"

text \<open>
  \<^verbatim>\<open>track_api_usage\<close>, with the date of the clock as a parameter (the clock is taken
  not to pass midnight during one call). The result is the new state of the file;
  when the function raises, the file has not been written. The directory and the
  file are taken to be writable.
\<close>

definition track_api_usage :: "date \<Rightarrow> store \<Rightarrow> exn + store" where
  "track_api_usage now s =
     (let today = isoformat now in
      case count_today today (load_usage s) of
        Inl e \<Rightarrow> Inl e
      | Inr usage_data \<Rightarrow>
          (case minus_days now 7 of
             Inl e \<Rightarrow> Inl e
           | Inr c \<Rightarrow>
               (let cutoff_date = isoformat c
                in Inr (Content (JObj (filter (\<lambda>(k, v). cutoff_date \<le> k) usage_data))))))"

text \<open>\<^verbatim>\<open>get_api_usage_today\<close>: any failure while reading gives 0.\<close>

definition get_api_usage_today :: "date \<Rightarrow> store \<Rightarrow> jv" where
  "get_api_usage_today now s =
     (case s of
        Content (JObj usage_data) \<Rightarrow>
          (case dict_get usage_data (isoformat now) of None \<Rightarrow> JInt 0 | Some v \<Rightarrow> v)
      | _ \<Rightarrow> JInt 0)"

text \<open>
  The ledger of the data model: a mapping from ISO dates to integer counts. A store
  holds one when it is absent, undecodable (both read as the empty mapping) or a JSON
  object all of whose values are integers.
\<close>

definition is_count :: "jv \<Rightarrow> bool" where
  "is_count v = (case v of JInt n \<Rightarrow> True | _ \<Rightarrow> False)"

definition ledger_store :: "store \<Rightarrow> bool" where
  "ledger_store s =
     (case s of
        Content (JObj d) \<Rightarrow> list_all (\<lambda>(k, v). is_count v) d
      | Content _ \<Rightarrow> False
      | _ \<Rightarrow> True)"

definition entries :: "store \<Rightarrow> string \<Rightarrow> jv option" where
  "entries s = (case load_usage s of JObj d \<Rightarrow> map_of d | _ \<Rightarrow> Map.empty)"

definition count_of :: "jv option \<Rightarrow> int" where
  "count_of x = (case x of Some (JInt n) \<Rightarrow> n | _ \<Rightarrow> 0)"

text \<open>
  The contract of \<open>record_call\<close> in the words of the specification, on the mapping the
  store holds: today's bucket is incremented by 1 (created at 1 if absent), then every
  bucket whose key is older than the cutoff is dropped.
\<close>

definition record_call_spec ::
  "string \<Rightarrow> string \<Rightarrow> (string \<Rightarrow> jv option) \<Rightarrow> (string \<Rightarrow> jv option)" where
  "record_call_spec today cutoff m =
     (\<lambda>k. if k < cutoff then None
          else if k = today then Some (JInt (count_of (m today) + 1))
          else m k)"

section \<open>Articles and the deduplicator\<close>

text \<open>
  An article of the search API: a \<^verbatim>\<open>dict\<close> read through \<^verbatim>\<open>.get("url")\<close> and
  written through \<^verbatim>\<open>["trigger_type"]\<close>. The URL is a string when present
  (\<open>None\<close> stands for a missing or null URL); \<open>rest\<close> holds the other fields.
  A response, and the result this program builds, is a \<^verbatim>\<open>dict\<close> with the keys
  \<^verbatim>\<open>status\<close>, \<^verbatim>\<open>totalResults\<close> and \<^verbatim>\<open>articles\<close>, each of which may be absent.
\<close>

record article =
  url :: "string option"
  trigger_type :: "string option"
  rest :: "(string \<times> jv) list"

record news =
  status :: "string option"
  totalResults :: "int option"
  articles :: "article list option"

text \<open>
  \<^verbatim>\<open>deduplicate_articles\<close>: one pass from left to right over the articles, with the
  set \<^verbatim>\<open>seen_urls\<close> and the list \<^verbatim>\<open>unique\<close> as the state of the loop.
\<close>

definition dedup_step :: "string set \<times> article list \<Rightarrow> article \<Rightarrow> string set \<times> article list" where
  "dedup_step st a =
     (case st of (seen_urls, unique) \<Rightarrow>
        (case url a of
           None \<Rightarrow> (seen_urls, unique)
         | Some u \<Rightarrow>
             if u \<noteq> [] \<and> u \<notin> seen_urls
             then (insert u seen_urls, unique @ [a])
             else (seen_urls, unique)))"

definition deduplicate_articles :: "article list \<Rightarrow> article list" where
  "deduplicate_articles as = snd (foldl dedup_step ({}, []) as)"

text \<open>
  The contract of \<open>dedupe\<close> in the words of the specification: the article at
  position \<open>i\<close> is kept when its URL is present and non-empty and no earlier article
  has the same URL; the output is the input restricted to the kept positions.
\<close>

definition kept :: "article list \<Rightarrow> nat \<Rightarrow> bool" where
  "kept L i =
     (case url (L ! i) of
        None \<Rightarrow> False
      | Some u \<Rightarrow> u \<noteq> [] \<and> Some u \<notin> set (map url (take i L)))"

definition dedupe_spec :: "article list \<Rightarrow> article list" where
  "dedupe_spec L = map (\<lambda>i. L ! i) (filter (kept L) [0..<length L])"

text \<open>The test of the loop on an article \<open>x\<close> that comes after the articles \<open>xs\<close>.\<close>

definition fresh :: "article list \<Rightarrow> article \<Rightarrow> bool" where
  "fresh xs x =
     (case url x of None \<Rightarrow> False | Some u \<Rightarrow> u \<noteq> [] \<and> Some u \<notin> set (map url xs))"

section \<open>The news fetcher\<close>

text \<open>
  The keyword arguments of one \<^verbatim>\<open>newsapi.get_everything\<close> call;
  \<open>exclude_domains\<close> is \<open>None\<close> when the argument is not passed. The remote service
  is a function from the request to a response or to the exception the client raises.
  The state the pipeline acts on is the ledger file and the requests issued so far.
  Every \<^verbatim>\<open>datetime.now()\<close> of one run gives the same date \<open>now\<close>. Each response
  is decoded afresh, so the articles of different calls are different objects, and
  tagging one does not change another.
\<close>

record request =
  q :: string
  from_param :: string
  to :: string
  sort_by :: string
  language :: string
  exclude_domains :: "string option"

type_synonym api = "request \<Rightarrow> exn + news"

record world =
  ledger :: store
  sent :: "request list"

text \<open>
  \<^verbatim>\<open>fetch_news_by_query\<close>. The date window is computed before the \<^verbatim>\<open>try\<close>, so
  its \<open>OverflowError\<close> reaches the caller; everything raised inside the \<^verbatim>\<open>try\<close>,
  by the remote call or by \<^verbatim>\<open>track_api_usage\<close>, is caught and gives \<^verbatim>\<open>None\<close>.
\<close>

definition fetch_news_by_query ::
  "api \<Rightarrow> date \<Rightarrow> string \<Rightarrow> int \<Rightarrow> string \<Rightarrow> world \<Rightarrow> exn + (news option \<times> world)" where
  "fetch_news_by_query newsapi now query days_back sort_order w =
     (case minus_days now days_back of
        Inl e \<Rightarrow> Inl e
      | Inr from_d \<Rightarrow>
          (let from_date = isoformat from_d;
               to_date = isoformat now;
               excl = ''arxiv.org,ieee.org,springer.com'';
               r = \<lparr>q = query, from_param = from_date, to = to_date, sort_by = sort_order,
                    language = ''en'', exclude_domains = Some excl\<rparr>;
               w1 = w\<lparr>sent := sent w @ [r]\<rparr>
           in case newsapi r of
                Inl e \<Rightarrow> Inr (None, w1)
              | Inr response \<Rightarrow>
                  (case track_api_usage now (ledger w1) of
                     Inl e \<Rightarrow> Inr (None, w1)
                   | Inr l \<Rightarrow> Inr (Some response, w1\<lparr>ledger := l\<rparr>))))"

text \<open>The catalog of \<^verbatim>\<open>config/default_triggers.py\<close>, in its order.\<close>

definition DEFAULT_TRIGGERS :: "(string \<times> string) list" where
  \<open>DEFAULT_TRIGGERS =
     [(''Patent & IP'',
       ''(company OR startup OR firm OR corporation) AND (patent OR "intellectual property" OR "IP portfolio" OR trademark) AND (granted OR filed OR awarded OR secures)''),
      (''Product Launch'',
       ''(company OR startup OR firm) AND ("product launch" OR "launches" OR "unveils" OR "announces" OR "introduces" OR "new product")''),
      (''Expansion'',
       ''(company OR startup OR firm) AND (expansion OR "opens office" OR "opening" OR "expands into" OR "enters market" OR "new location")'')]\<close>

text \<open>Lines 92 to 97: the new \<^verbatim>\<open>dict\<close> is filled entry by entry.\<close>

definition add_region :: "string \<Rightarrow> string \<Rightarrow> string" where
  "add_region query region = ''('' @ query @ '') AND '' @ region"

definition with_region :: "(string \<times> string) list \<Rightarrow> string \<Rightarrow> (string \<times> string) list" where
  "with_region trigger_queries region =
     foldl (\<lambda>queries_with_region (name, query).
              dict_set name (add_region query region) queries_with_region)
       [] trigger_queries"

definition region_queries ::
  "(string \<times> string) list \<Rightarrow> string option \<Rightarrow> (string \<times> string) list" where
  "region_queries trigger_queries region =
     (case region of
        None \<Rightarrow> trigger_queries
      | Some r \<Rightarrow> if r \<noteq> [] then with_region trigger_queries r else trigger_queries)"

definition tag :: "string \<Rightarrow> article \<Rightarrow> article" where
  "tag trigger_name a = a\<lparr>trigger_type := Some trigger_name\<rparr>"

text \<open>
  The request of one catalog entry (lines 105 to 111) and the body of the loop
  (lines 103 to 124). An exception of the remote call or of \<^verbatim>\<open>track_api_usage\<close>
  leaves the accumulator as it was and the loop goes on.
\<close>

definition trigger_request :: "string \<Rightarrow> string \<Rightarrow> string \<Rightarrow> string \<Rightarrow> request" where
  "trigger_request from_date to_date sort_order query =
     \<lparr>q = query, from_param = from_date, to = to_date, sort_by = sort_order,
      language = ''en'', exclude_domains = None\<rparr>"

definition collected :: "string \<Rightarrow> news \<Rightarrow> article list" where
  "collected trigger_name response =
     (case articles response of
        Some (a # as) \<Rightarrow>
          if status response = Some ''ok'' then map (tag trigger_name) (a # as) else []
      | _ \<Rightarrow> [])"

definition trigger_step ::
  "api \<Rightarrow> date \<Rightarrow> string \<Rightarrow> string \<Rightarrow> string \<Rightarrow>
   article list \<times> world \<Rightarrow> string \<times> string \<Rightarrow> article list \<times> world" where
  "trigger_step newsapi now from_date to_date sort_order st entry =
     (case (st, entry) of ((all_articles, w), (trigger_name, query)) \<Rightarrow>
        (let r = trigger_request from_date to_date sort_order query;
             w1 = w\<lparr>sent := sent w @ [r]\<rparr>
         in case newsapi r of
              Inl e \<Rightarrow> (all_articles, w1)
            | Inr response \<Rightarrow>
                (case track_api_usage now (ledger w1) of
                   Inl e \<Rightarrow> (all_articles, w1)
                 | Inr l \<Rightarrow> (all_articles @ collected trigger_name response, w1\<lparr>ledger := l\<rparr>))))"

definition fetch_sales_triggers ::
  "api \<Rightarrow> date \<Rightarrow> (string \<times> string) list option \<Rightarrow> int \<Rightarrow> string \<Rightarrow> string option \<Rightarrow>
   world \<Rightarrow> exn + (news \<times> world)" where
  "fetch_sales_triggers newsapi now trigger_queries days_back sort_order region w =
     (let trigger_queries =
            (case trigger_queries of None \<Rightarrow> DEFAULT_TRIGGERS | Some t \<Rightarrow> t);
          queries_with_region = region_queries trigger_queries region
      in case minus_days now days_back of
           Inl e \<Rightarrow> Inl e
         | Inr from_d \<Rightarrow>
             (case foldl (trigger_step newsapi now (isoformat from_d) (isoformat now) sort_order)
                     ([], w) queries_with_region of
                (all_articles, w') \<Rightarrow>
                  (let unique_articles = deduplicate_articles all_articles
                   in Inr (\<lparr>status = Some ''ok'',
                            totalResults = Some (int (length unique_articles)),
                            articles = Some unique_articles\<rparr>, w'))))"

text \<open>
  What one catalog entry adds to the accumulator when the ledger update succeeds:
  nothing when the remote call raises, the tagged articles of the response otherwise.
\<close>

definition gathered :: "api \<Rightarrow> string \<Rightarrow> string \<Rightarrow> string \<Rightarrow> string \<times> string \<Rightarrow> article list" where
  "gathered newsapi from_date to_date sort_order entry =
     (case entry of (trigger_name, query) \<Rightarrow>
        (case newsapi (trigger_request from_date to_date sort_order query) of
           Inl e \<Rightarrow> []
         | Inr response \<Rightarrow> collected trigger_name response))"

definition answered :: "api \<Rightarrow> string \<Rightarrow> string \<Rightarrow> string \<Rightarrow> string \<times> string \<Rightarrow> bool" where
  "answered newsapi from_date to_date sort_order entry =
     (case newsapi (trigger_request from_date to_date sort_order (snd entry)) of
        Inl e \<Rightarrow> False
      | Inr response \<Rightarrow> True)"

section \<open>The persister\<close>

text \<open>
  A naive \<^verbatim>\<open>datetime\<close>, as \<^verbatim>\<open>datetime.now()\<close> returns it, and its
  \<^verbatim>\<open>isoformat()\<close>, which leaves the microseconds out when they are zero.
\<close>

record datetime =
  on_date :: date
  hour :: nat
  minute :: nat
  second :: nat
  microsecond :: nat

definition valid_datetime :: "datetime \<Rightarrow> bool" where
  "valid_datetime t =
     (valid_date (on_date t) \<and> hour t < 24 \<and> minute t < 60 \<and> second t < 60 \<and>
      microsecond t < 1000000)"

definition pad6 :: "nat \<Rightarrow> string" where
  "pad6 n = pad2 (n div 10000) @ pad4 (n mod 10000)"

definition isoformat_dt :: "datetime \<Rightarrow> string" where
  "isoformat_dt t =
     isoformat (on_date t) @ ''T'' @ pad2 (hour t) @ '':'' @ pad2 (minute t) @ '':'' @
     pad2 (second t) @ (if microsecond t = 0 then [] else ''.'' @ pad6 (microsecond t))"

text \<open>
  \<^verbatim>\<open>t + timedelta(hours=h)\<close> for a number of hours \<open>h\<close>: the hours carry into
  days, the rest of the time of day stays. It raises \<open>OverflowError\<close> when the
  \<^verbatim>\<open>timedelta\<close> exceeds 999999999 days or the result leaves the calendar.
\<close>

definition plus_hours :: "datetime \<Rightarrow> nat \<Rightarrow> exn + datetime" where
  "plus_hours t h =
     (if 999999999 < h div 24 then Inl OverflowError
      else case days_later ((hour t + h) div 24) (on_date t) of
             None \<Rightarrow> Inl OverflowError
           | Some d \<Rightarrow> Inr (t\<lparr>on_date := d, hour := (hour t + h) mod 24\<rparr>))"

text \<open>
  The position of a \<^verbatim>\<open>datetime\<close> on the time line, in microseconds since the
  beginning of 0001-01-01: \<^verbatim>\<open>date.toordinal()\<close> counts the days.
\<close>

definition days_before_year :: "nat \<Rightarrow> nat" where
  "days_before_year y = (y - 1) * 365 + (y - 1) div 4 - (y - 1) div 100 + (y - 1) div 400"

definition days_before_month :: "nat \<Rightarrow> nat \<Rightarrow> nat" where
  "days_before_month y m = sum_list (map (days_in_month y) [1..<m])"

definition toordinal :: "date \<Rightarrow> nat" where
  "toordinal d = days_before_year (year d) + days_before_month (year d) (month d) + day d"

definition microseconds :: "datetime \<Rightarrow> nat" where
  "microseconds t =
     (((toordinal (on_date t) - 1) * 24 + hour t) * 60 + minute t) * 60000000 +
     second t * 1000000 + microsecond t"

text \<open>
  The written document: the three keys of the result, where \<^verbatim>\<open>articles\<close> is always
  present, and the metadata. The output directory holds one document per path.
\<close>

record metadata =
  fetched_at :: string
  expires_at :: string
  query_params :: "(string \<times> jv) list"

record document = news +
  metadata :: metadata

text \<open>\<^verbatim>\<open>os.path.join\<close> of two components, on POSIX.\<close>

definition path_join :: "string \<Rightarrow> string \<Rightarrow> string" where
  "path_join a b =
     (if b \<noteq> [] \<and> hd b = CHR ''/'' then b
      else if a = [] \<or> last a = CHR ''/'' then a @ b
      else a @ ''/'' @ b)"

text \<open>
  The truth value of \<^verbatim>\<open>news_data\<close>: \<^verbatim>\<open>None\<close> and the empty \<^verbatim>\<open>dict\<close> are
  false.
\<close>

definition truthy :: "news option \<Rightarrow> bool" where
  "truthy news_data =
     (case news_data of
        None \<Rightarrow> False
      | Some n \<Rightarrow> status n \<noteq> None \<or> totalResults n \<noteq> None \<or> articles n \<noteq> None)"

text \<open>
  \<^verbatim>\<open>save_news_to_file\<close>, with the data directory and the reading of the clock as
  parameters. It returns the written path and the new content of the directory.
\<close>

definition save_news_to_file ::
  "string \<Rightarrow> datetime \<Rightarrow> news option \<Rightarrow> string \<Rightarrow> (string \<times> jv) list option \<Rightarrow>
   (string \<Rightarrow> document option) \<Rightarrow> exn + (string option \<times> (string \<Rightarrow> document option))" where
  "save_news_to_file data_dir now news_data filename params files =
     (case news_data of
        None \<Rightarrow> Inr (None, files)
      | Some n \<Rightarrow>
          if \<not> truthy news_data then Inr (None, files)
          else
            (let fetched = now in
             case plus_hours fetched 24 of
               Inl e \<Rightarrow> Inl e
             | Inr expires \<Rightarrow>
                 (let data_with_metadata =
                        \<lparr>status = status n,
                         totalResults = totalResults n,
                         articles = Some (case articles n of None \<Rightarrow> [] | Some as \<Rightarrow> as),
                         metadata =
                           \<lparr>fetched_at = isoformat_dt fetched,
                            expires_at = isoformat_dt expires,
                            query_params = (case params of None \<Rightarrow> [] | Some p \<Rightarrow> p)\<rparr>\<rparr>;
                      filepath = path_join data_dir filename
                  in Inr (Some filepath, files(filepath \<mapsto> data_with_metadata)))))"

section \<open>Example inputs\<close>

text \<open>
  A date of the clock, a state with no ledger file and no request issued, and stand-ins
  for the remote service: one that always fails after the server has answered, and the
  service of the end-to-end scenario of the specification.
\<close>

definition day0 :: date where
  "day0 = \<lparr>year = 2026, month = 11, day = 3\<rparr>"

definition world0 :: world where
  "world0 = \<lparr>ledger = Missing, sent = []\<rparr>"

definition failing_api :: api where
  "failing_api r = Inl NewsAPIException"

definition art :: "string \<Rightarrow> article" where
  "art u = \<lparr>url = Some u, trigger_type = None, rest = []\<rparr>"

definition scenario_api :: api where
  "scenario_api r =
     (if q r = ''foo''
      then Inr \<lparr>status = Some ''ok'', totalResults = Some 2,
                articles = Some [art ''u1'', art ''u2'']\<rparr>
      else if q r = ''bar''
      then Inr \<lparr>status = Some ''ok'', totalResults = Some 2,
                articles = Some [art ''u2'', art ''u3'']\<rparr>
      else Inl NewsAPIException)"

text \<open>A ledger with buckets on both sides of the cutoff of \<open>day0\<close>.\<close>

definition ledger0 :: store where
  "ledger0 = Content (JObj [(''2026-10-26'', JInt 3), (''2026-10-27'', JInt 4),
                            (''2026-11-03'', JInt 9)])"


text \<open>A service whose request for \<open>bar\<close> succeeds with one article and whose other requests fail.\<close>

definition partial_api :: api where
  "partial_api r =
     (if q r = ''bar''
      then Inr \<lparr>status = Some ''ok'', totalResults = Some 1, articles = Some [art ''u9'']\<rparr>
      else Inl RequestException)"


text \<open>A reading of the clock and a result to save.\<close>

definition clock0 :: datetime where
  "clock0 = \<lparr>on_date = day0, hour = 17, minute = 4, second = 5, microsecond = 123\<rparr>"

definition result0 :: news where
  "result0 = \<lparr>status = Some ''ok'', totalResults = Some 1, articles = Some [art ''u1'']\<rparr>"


section \<open>Dates and their ISO format\<close>


lemma digit_less: "a < 10 \<Longrightarrow> b < 10 \<Longrightarrow> digit a < digit b \<longleftrightarrow> a < b"
  by (simp add: digit_def less_char_def)

lemma digit_eq: "a < 10 \<Longrightarrow> b < 10 \<Longrightarrow> digit a = digit b \<longleftrightarrow> a = b"
  using digit_less [of a b] digit_less [of b a] by (cases a b rule: linorder_cases) auto

lemma digit_mod: "digit (n mod 10) = digit n"
  by (simp add: digit_def)

lemma quot_rem_less:
  fixes c :: nat
  assumes "ra < c" "rb < c"
  shows "c * qa + ra < c * qb + rb \<longleftrightarrow> qa < qb \<or> (qa = qb \<and> ra < rb)"
proof (cases qa qb rule: linorder_cases)
  case less
  then have "c * (qa + 1) \<le> c * qb" by (intro mult_le_mono2) simp
  then have "c * qa + ra < c * qb + rb" using assms(1) by simp
  with less show ?thesis by simp
next
  case equal
  then show ?thesis by simp
next
  case greater
  then have "c * (qb + 1) \<le> c * qa" by (intro mult_le_mono2) simp
  then have "c * qb + rb < c * qa + ra" using assms(2) by simp
  with greater show ?thesis by simp
qed

lemma div_mod_less:
  fixes a b c :: nat
  assumes "0 < c"
  shows "a < b \<longleftrightarrow> a div c < b div c \<or> (a div c = b div c \<and> a mod c < b mod c)"
proof -
  have "a < b \<longleftrightarrow> c * (a div c) + a mod c < c * (b div c) + b mod c" by simp
  also have "\<dots> \<longleftrightarrow> a div c < b div c \<or> (a div c = b div c \<and> a mod c < b mod c)"
    by (rule quot_rem_less) (simp_all add: assms)
  finally show ?thesis .
qed


lemma pad2_less: "a < 100 \<Longrightarrow> b < 100 \<Longrightarrow> pad2 a < pad2 b \<longleftrightarrow> a < b"
proof -
  assume a: "a < 100" and b: "b < 100"
  have q: "a div 10 < 10" "b div 10 < 10" using a b by auto
  have r: "a mod 10 < 10" "b mod 10 < 10" by auto
  have "pad2 a < pad2 b \<longleftrightarrow>
          a div 10 < b div 10 \<or> (a div 10 = b div 10 \<and> a mod 10 < b mod 10)"
    unfolding pad2_def
    using digit_less [OF q] digit_eq [OF q] digit_less [OF r]
    by (simp add: digit_mod)
  also have "\<dots> \<longleftrightarrow> a < b" by (rule div_mod_less [symmetric]) simp
  finally show ?thesis .
qed

lemma pad2_eq: "a < 100 \<Longrightarrow> b < 100 \<Longrightarrow> pad2 a = pad2 b \<longleftrightarrow> a = b"
  using pad2_less [of a b] pad2_less [of b a] by (cases a b rule: linorder_cases) auto

lemma length_pad2: "length (pad2 n) = 2"
  by (simp add: pad2_def)

lemma append_less_same_length:
  fixes xs ys :: "'a::order list"
  shows "length xs = length ys \<Longrightarrow> xs @ us < ys @ vs \<longleftrightarrow> xs < ys \<or> (xs = ys \<and> us < vs)"
  by (induction xs ys rule: list_induct2) auto

lemma pad4_less: "a < 10000 \<Longrightarrow> b < 10000 \<Longrightarrow> pad4 a < pad4 b \<longleftrightarrow> a < b"
proof -
  assume a: "a < 10000" and b: "b < 10000"
  have q: "a div 100 < 100" "b div 100 < 100" using a b by auto
  have r: "a mod 100 < 100" "b mod 100 < 100" by auto
  have "pad4 a < pad4 b \<longleftrightarrow>
          a div 100 < b div 100 \<or> (a div 100 = b div 100 \<and> a mod 100 < b mod 100)"
    unfolding pad4_def
    by (simp add: append_less_same_length length_pad2 pad2_less [OF q] pad2_eq [OF q] pad2_less [OF r])
  also have "\<dots> \<longleftrightarrow> a < b" by (rule div_mod_less [symmetric]) simp
  finally show ?thesis .
qed

lemma pad4_eq: "a < 10000 \<Longrightarrow> b < 10000 \<Longrightarrow> pad4 a = pad4 b \<longleftrightarrow> a = b"
  using pad4_less [of a b] pad4_less [of b a] by (cases a b rule: linorder_cases) auto

lemma length_pad4: "length (pad4 n) = 4"
  by (simp add: pad4_def pad2_def)


lemma valid_date_bounds:
  "valid_date d \<Longrightarrow> year d < 10000 \<and> month d < 100 \<and> day d < 100"
  by (simp add: valid_date_def days_in_month_def split: if_splits)

lemma isoformat_less:
  assumes "valid_date a" "valid_date b"
  shows "isoformat a < isoformat b \<longleftrightarrow> date_less a b"
proof -
  from assms have ba: "year a < 10000" "month a < 100" "day a < 100"
    and bb: "year b < 10000" "month b < 100" "day b < 100"
    using valid_date_bounds by blast+
  show ?thesis
    unfolding isoformat_def date_less_def
    by (simp add: append_less_same_length length_pad4 length_pad2
        pad4_less [OF ba(1) bb(1)] pad4_eq [OF ba(1) bb(1)]
        pad2_less [OF ba(2) bb(2)] pad2_eq [OF ba(2) bb(2)]
        pad2_less [OF ba(3) bb(3)])
qed

lemma isoformat_inject:
  assumes "valid_date a" "valid_date b"
  shows "isoformat a = isoformat b \<longleftrightarrow> a = b"
proof -
  from assms have ba: "year a < 10000" "month a < 100" "day a < 100"
    and bb: "year b < 10000" "month b < 100" "day b < 100"
    using valid_date_bounds by blast+
  have "isoformat a = isoformat b \<longleftrightarrow> year a = year b \<and> month a = month b \<and> day a = day b"
    unfolding isoformat_def
    by (simp add: length_pad4 length_pad2
        pad4_eq [OF ba(1) bb(1)] pad2_eq [OF ba(2) bb(2)] pad2_eq [OF ba(3) bb(3)])
  then show ?thesis by auto
qed

lemma isoformat_le:
  assumes "valid_date a" "valid_date b"
  shows "isoformat a \<le> isoformat b \<longleftrightarrow> date_le a b"
  using isoformat_less [OF assms] isoformat_inject [OF assms]
  by (auto simp: date_le_def le_less)


lemma days_in_month_bounds: "28 \<le> days_in_month y m \<and> days_in_month y m \<le> 31"
  by (simp add: days_in_month_def)

lemma prev_day_valid:
  assumes "valid_date d" "prev_day d = Some p"
  shows "valid_date p \<and> date_less p d"
proof -
  consider (day) "1 < day d"
    | (month) "day d \<le> 1" "1 < month d"
    | (year) "day d \<le> 1" "month d \<le> 1" "1 < year d"
    | (none) "day d \<le> 1" "month d \<le> 1" "year d \<le> 1"
    by linarith
  then show ?thesis
  proof cases
    case day
    with assms show ?thesis
      by (auto simp: prev_day_def valid_date_def date_less_def)
  next
    case month
    with assms(2) have p: "p = d\<lparr>month := month d - 1, day := days_in_month (year d) (month d - 1)\<rparr>"
      by (simp add: prev_day_def)
    have dim: "1 \<le> days_in_month (year d) (month d - 1)"
      using days_in_month_bounds [of "year d" "month d - 1"] by linarith
    from assms(1) have v: "1 \<le> year d" "year d \<le> 9999" "month d \<le> 12"
      by (simp_all add: valid_date_def)
    have m: "1 \<le> month d - 1" "month d - 1 \<le> 12" "month d - 1 < month d"
      using month(2) v(3) by linarith+
    have "valid_date p"
      unfolding p valid_date_def using v m dim by simp
    moreover have "date_less p d"
      unfolding p date_less_def using m(3) by simp
    ultimately show ?thesis ..
  next
    case year
    with assms(2) have p: "p = d\<lparr>year := year d - 1, month := 12, day := 31\<rparr>"
      by (simp add: prev_day_def)
    from assms(1) have v: "year d \<le> 9999"
      by (simp add: valid_date_def)
    have y: "1 \<le> year d - 1" "year d - 1 \<le> 9999" "year d - 1 < year d"
      using year(3) v by linarith+
    have "valid_date p"
      unfolding p valid_date_def using y by (simp add: days_in_month_def)
    moreover have "date_less p d"
      unfolding p date_less_def using y(3) by simp
    ultimately show ?thesis ..
  next
    case none
    with assms(2) show ?thesis by (simp add: prev_day_def)
  qed
qed

lemma date_le_refl: "date_le d d"
  by (simp add: date_le_def)

lemma date_le_trans: "date_le a b \<Longrightarrow> date_le b c \<Longrightarrow> date_le a c"
  unfolding date_le_def date_less_def by linarith

lemma date_le_not_less: "date_le a b \<Longrightarrow> \<not> date_less b a"
  unfolding date_le_def date_less_def by linarith

lemma days_earlier_valid:
  "valid_date d \<Longrightarrow> days_earlier n d = Some c \<Longrightarrow> valid_date c \<and> date_le c d"
proof (induction n arbitrary: d)
  case 0
  then show ?case by (simp add: date_le_def)
next
  case (Suc n)
  from Suc.prems(2) obtain p where p: "prev_day d = Some p" and c: "days_earlier n p = Some c"
    by (auto split: option.splits)
  from prev_day_valid [OF Suc.prems(1) p] have vp: "valid_date p" and lt: "date_less p d" by auto
  from Suc.IH [OF vp c] have "valid_date c" "date_le c p" by auto
  moreover have "date_le p d" using lt by (simp add: date_le_def)
  ultimately show ?case using date_le_trans by blast
qed

lemma minus_days_valid:
  assumes "valid_date d" "0 \<le> n" "minus_days d n = Inr c"
  shows "valid_date c \<and> date_le c d"
proof -
  from assms(2,3) have "days_earlier (nat n) d = Some c"
    by (auto simp: minus_days_def split: if_splits option.splits)
  with assms(1) show ?thesis by (rule days_earlier_valid)
qed


section \<open>The ledger update\<close>

lemma map_of_dict_set: "map_of (dict_set k v d) = (map_of d)(k \<mapsto> v)"
  by (induction d) (auto simp: fun_eq_iff)

lemma dict_has_map_of: "dict_has d k \<longleftrightarrow> map_of d k \<noteq> None"
  by (simp add: dict_has_def map_of_eq_None_iff)

lemma map_of_filter_key:
  "map_of (filter (\<lambda>(k, v). P k) d) k = (if P k then map_of d k else None)"
  by (induction d) auto

lemma counts_dict_set:
  "list_all (\<lambda>(k, v). is_count v) d \<Longrightarrow> is_count v \<Longrightarrow>
   list_all (\<lambda>(k, v). is_count v) (dict_set k v d)"
  by (induction d) auto

lemma counts_filter:
  "list_all (\<lambda>(k, v). is_count v) d \<Longrightarrow> list_all (\<lambda>(k, v). is_count v) (filter P d)"
  by (induction d) auto

lemma counts_map_of:
  "list_all (\<lambda>(k, v). is_count v) d \<Longrightarrow> map_of d k = Some v \<Longrightarrow> \<exists>n. v = JInt n"
  by (induction d) (auto simp: is_count_def split: if_splits jv.splits)

lemma count_today_ledger:
  assumes "list_all (\<lambda>(k, v). is_count v) d"
  shows "\<exists>d'. count_today t (JObj d) = Inr d' \<and>
           map_of d' = (map_of d)(t \<mapsto> JInt (count_of (map_of d t) + 1)) \<and>
           list_all (\<lambda>(k, v). is_count v) d' \<and>
           (d = [] \<longrightarrow> d' = [(t, JInt 1)])"
proof (cases "map_of d t")
  case None
  then have h: "\<not> dict_has d t" by (simp add: dict_has_map_of)
  have "count_today t (JObj d) = Inr (dict_set t (JInt 1) (dict_set t (JInt 0) d))"
    using h by (simp add: dict_get_def map_of_dict_set Let_def)
  moreover have "list_all (\<lambda>(k, v). is_count v) (dict_set t (JInt 1) (dict_set t (JInt 0) d))"
    using assms by (intro counts_dict_set) (simp_all add: is_count_def)
  ultimately show ?thesis
    using None by (auto simp: map_of_dict_set count_of_def)
next
  case (Some v)
  then have h: "dict_has d t" by (simp add: dict_has_map_of)
  from counts_map_of [OF assms Some] obtain n where v: "v = JInt n" ..
  have "count_today t (JObj d) = Inr (dict_set t (JInt (n + 1)) d)"
    using h Some v by (simp add: dict_get_def Let_def)
  moreover have "list_all (\<lambda>(k, v). is_count v) (dict_set t (JInt (n + 1)) d)"
    using assms by (intro counts_dict_set) (simp_all add: is_count_def)
  ultimately show ?thesis
    using Some v by (auto simp: map_of_dict_set count_of_def)
qed

lemma ledger_store_load:
  "ledger_store s \<Longrightarrow> \<exists>d. load_usage s = JObj d \<and> list_all (\<lambda>(k, v). is_count v) d \<and>
      entries s = map_of d \<and> (s = Missing \<or> s = Garbled \<longrightarrow> d = [])"
  by (auto simp: ledger_store_def load_usage_def entries_def split: store.splits jv.splits)

lemma track_api_usage_ledger:
  assumes s: "ledger_store s" and c: "minus_days now 7 = Inr c"
  shows "\<exists>d. track_api_usage now s = Inr (Content (JObj d)) \<and>
           map_of d = record_call_spec (isoformat now) (isoformat c) (entries s) \<and>
           ledger_store (Content (JObj d)) \<and>
           (entries s = Map.empty \<and> isoformat c \<le> isoformat now \<longrightarrow> d = [(isoformat now, JInt 1)])"
proof -
  from ledger_store_load [OF s] obtain d0 where
    l: "load_usage s = JObj d0" and c0: "list_all (\<lambda>(k, v). is_count v) d0"
    and e: "entries s = map_of d0" by blast
  from count_today_ledger [OF c0, of "isoformat now"] obtain d1 where
    t: "count_today (isoformat now) (JObj d0) = Inr d1"
    and m1: "map_of d1 = (map_of d0)(isoformat now \<mapsto> JInt (count_of (map_of d0 (isoformat now)) + 1))"
    and c1: "list_all (\<lambda>(k, v). is_count v) d1"
    and e1: "d0 = [] \<longrightarrow> d1 = [(isoformat now, JInt 1)]" by blast
  let ?d = "filter (\<lambda>(k, v). isoformat c \<le> k) d1"
  have r: "track_api_usage now s = Inr (Content (JObj ?d))"
    by (simp add: track_api_usage_def Let_def l t c del: count_today.simps)
  have m: "map_of ?d = record_call_spec (isoformat now) (isoformat c) (entries s)"
    by (rule ext) (simp add: map_of_filter_key m1 e record_call_spec_def not_less)
  have w: "ledger_store (Content (JObj ?d))"
    using counts_filter [OF c1] by (simp add: ledger_store_def)
  have "d0 = []" if "entries s = Map.empty"
    using that e by simp
  with e1 have "entries s = Map.empty \<and> isoformat c \<le> isoformat now \<longrightarrow> ?d = [(isoformat now, JInt 1)]"
    by auto
  with r m w show ?thesis by blast
qed



lemma entries_empty: "entries Missing = Map.empty" "entries Garbled = Map.empty"
  "entries (Content (JObj [])) = Map.empty"
  by (simp_all add: entries_def load_usage_def)


text \<open>
  A store that decodes to a JSON value other than an object is not a ledger: there the
  update raises and nothing is written.
\<close>

lemma track_api_usage_not_object:
  "\<forall>d. j \<noteq> JObj d \<Longrightarrow> track_api_usage now (Content j) = Inl TypeError"
  by (cases j) (simp_all add: track_api_usage_def load_usage_def)

section \<open>The deduplication loop\<close>

lemma dedup_seen:
  "fst (foldl dedup_step ({}, []) xs) = {u. u \<noteq> [] \<and> Some u \<in> set (map url xs)}"
proof (induction xs rule: rev_induct)
  case Nil
  then show ?case by simp
next
  case (snoc x xs)
  obtain seen unique where st: "foldl dedup_step ({}, []) xs = (seen, unique)"
    by (cases "foldl dedup_step ({}, []) xs")
  with snoc have seen: "seen = {u. u \<noteq> [] \<and> Some u \<in> set (map url xs)}" by simp
  have step: "foldl dedup_step ({}, []) (xs @ [x]) = dedup_step (seen, unique) x"
    by (simp add: st)
  show ?case
    unfolding step by (cases "url x") (auto simp: dedup_step_def seen)
qed

lemma dedup_snoc:
  "deduplicate_articles (xs @ [x]) =
   deduplicate_articles xs @ (if fresh xs x then [x] else [])"
proof -
  obtain seen unique where st: "foldl dedup_step ({}, []) xs = (seen, unique)"
    by (cases "foldl dedup_step ({}, []) xs")
  have seen: "seen = {u. u \<noteq> [] \<and> Some u \<in> set (map url xs)}"
    using dedup_seen [of xs] st by simp
  have step: "foldl dedup_step ({}, []) (xs @ [x]) = dedup_step (seen, unique) x"
    by (simp add: st)
  show ?thesis
    unfolding deduplicate_articles_def step st
    by (cases "url x") (auto simp: dedup_step_def seen fresh_def)
qed

lemma kept_snoc_old: "i < length xs \<Longrightarrow> kept (xs @ [x]) i = kept xs i"
  by (simp add: kept_def nth_append split: option.split)

lemma kept_snoc_new: "kept (xs @ [x]) (length xs) = fresh xs x"
  by (simp add: kept_def fresh_def split: option.split)

lemma dedupe_spec_snoc:
  "dedupe_spec (xs @ [x]) = dedupe_spec xs @ (if fresh xs x then [x] else [])"
proof -
  have f: "filter (kept (xs @ [x])) [0..<length xs] = filter (kept xs) [0..<length xs]"
    by (rule filter_cong) (simp_all add: kept_snoc_old)
  have m: "map ((!) (xs @ [x])) (filter (kept xs) [0..<length xs]) =
           map ((!) xs) (filter (kept xs) [0..<length xs])"
    by (rule map_cong) (simp_all add: nth_append)
  show ?thesis
    by (simp add: dedupe_spec_def f m kept_snoc_new)
qed

lemma dedup_is_spec: "deduplicate_articles L = dedupe_spec L"
proof (induction L rule: rev_induct)
  case Nil
  then show ?case by (simp add: deduplicate_articles_def dedupe_spec_def)
next
  case (snoc x xs)
  then show ?case by (simp only: dedup_snoc dedupe_spec_snoc)
qed

lemma dedup_urls:
  "set (map url (deduplicate_articles xs)) = {Some u |u. u \<noteq> [] \<and> Some u \<in> set (map url xs)}"
proof (induction xs rule: rev_induct)
  case Nil
  then show ?case by (simp add: deduplicate_articles_def)
next
  case (snoc x xs)
  then show ?case
    by (auto simp: dedup_snoc fresh_def split: option.splits)
qed

lemma dedup_distinct: "distinct (map url (deduplicate_articles xs))"
proof (induction xs rule: rev_induct)
  case Nil
  then show ?case by (simp add: deduplicate_articles_def)
next
  case (snoc x xs)
  show ?case
  proof (cases "fresh xs x")
    case True
    then obtain u where u: "url x = Some u" "u \<noteq> []" "Some u \<notin> set (map url xs)"
      by (auto simp: fresh_def split: option.splits)
    then have "url x \<notin> set (map url (deduplicate_articles xs))"
      unfolding dedup_urls by auto
    with snoc True show ?thesis by (simp add: dedup_snoc)
  next
    case False
    with snoc show ?thesis by (simp add: dedup_snoc)
  qed
qed

lemma dedup_has_url:
  "a \<in> set (deduplicate_articles xs) \<Longrightarrow> \<exists>u. url a = Some u \<and> u \<noteq> []"
proof -
  assume "a \<in> set (deduplicate_articles xs)"
  then have "url a \<in> set (map url (deduplicate_articles xs))" by simp
  then show ?thesis unfolding dedup_urls by auto
qed

lemma dedup_subset: "set (deduplicate_articles xs) \<subseteq> set xs"
proof (induction xs rule: rev_induct)
  case Nil
  then show ?case by (simp add: deduplicate_articles_def)
next
  case (snoc x xs)
  then show ?case by (auto simp: dedup_snoc)
qed

lemma dedup_fixed:
  "distinct (map url xs) \<Longrightarrow> (\<forall>a \<in> set xs. \<exists>u. url a = Some u \<and> u \<noteq> []) \<Longrightarrow>
   deduplicate_articles xs = xs"
proof (induction xs rule: rev_induct)
  case Nil
  then show ?case by (simp add: deduplicate_articles_def)
next
  case (snoc x xs)
  from snoc.prems have "fresh xs x" by (auto simp: fresh_def)
  moreover from snoc have "deduplicate_articles xs = xs" by simp
  ultimately show ?case by (simp add: dedup_snoc)
qed

lemma dedup_idem: "deduplicate_articles (deduplicate_articles L) = deduplicate_articles L"
  by (rule dedup_fixed) (auto simp: dedup_distinct dest: dedup_has_url)

section \<open>The fetch loop\<close>


lemma get_api_usage_today_entries:
  "get_api_usage_today now s =
   (case entries s (isoformat now) of None \<Rightarrow> JInt 0 | Some v \<Rightarrow> v)"
  by (simp add: get_api_usage_today_def entries_def load_usage_def dict_get_def
      split: store.splits jv.splits)

lemma get_api_usage_today_ledger:
  assumes "ledger_store s"
  shows "get_api_usage_today now s = JInt (count_of (entries s (isoformat now)))"
proof -
  from ledger_store_load [OF assms] obtain d where
    c: "list_all (\<lambda>(k, v). is_count v) d" and e: "entries s = map_of d" by blast
  show ?thesis
  proof (cases "map_of d (isoformat now)")
    case None
    then show ?thesis by (simp add: get_api_usage_today_entries e count_of_def)
  next
    case (Some v)
    from counts_map_of [OF c Some] obtain n where "v = JInt n" ..
    with Some show ?thesis by (simp add: get_api_usage_today_entries e count_of_def)
  qed
qed

lemma track_api_usage_counts:
  assumes s: "ledger_store s" and v: "valid_date now" and c: "minus_days now 7 = Inr c"
  shows "\<exists>s'. track_api_usage now s = Inr s' \<and> ledger_store s' \<and>
           count_of (entries s' (isoformat now)) = count_of (entries s (isoformat now)) + 1"
proof -
  from track_api_usage_ledger [OF s c] obtain d where
    r: "track_api_usage now s = Inr (Content (JObj d))"
    and m: "map_of d = record_call_spec (isoformat now) (isoformat c) (entries s)"
    and w: "ledger_store (Content (JObj d))" by blast
  from minus_days_valid [OF v _ c] have vc: "valid_date c" and le: "date_le c now" by simp_all
  have "isoformat c \<le> isoformat now" using isoformat_le [OF vc v] le by simp
  then have "map_of d (isoformat now) = Some (JInt (count_of (entries s (isoformat now)) + 1))"
    by (simp add: m record_call_spec_def not_less [symmetric])
  then have "count_of (entries (Content (JObj d)) (isoformat now)) =
             count_of (entries s (isoformat now)) + 1"
    by (simp add: entries_def load_usage_def count_of_def)
  with r w show ?thesis by blast
qed

lemma trigger_step_sent:
  "sent (snd (trigger_step newsapi now fd td so st entry)) =
   sent (snd st) @ [trigger_request fd td so (snd entry)]"
  by (cases st; cases entry)
    (simp add: trigger_step_def Let_def split: sum.splits)

lemma trigger_loop_sent:
  "sent (snd (foldl (trigger_step newsapi now fd td so) st qs)) =
   sent (snd st) @ map (\<lambda>entry. trigger_request fd td so (snd entry)) qs"
  by (induction qs arbitrary: st) (simp_all add: trigger_step_sent)

lemma trigger_step_ledger:
  assumes s: "ledger_store (ledger w)" and v: "valid_date now" and c: "minus_days now 7 = Inr c"
  shows "\<exists>w'. trigger_step newsapi now fd td so (acc, w) entry =
                 (acc @ gathered newsapi fd td so entry, w') \<and>
           ledger_store (ledger w') \<and>
           count_of (entries (ledger w') (isoformat now)) =
             count_of (entries (ledger w) (isoformat now)) +
             (if answered newsapi fd td so entry then 1 else 0)"
proof -
  obtain name query where entry: "entry = (name, query)" by (cases entry)
  from track_api_usage_counts [OF s v c] obtain s' where
    t: "track_api_usage now (ledger w) = Inr s'" and s': "ledger_store s'"
    and n: "count_of (entries s' (isoformat now)) = count_of (entries (ledger w) (isoformat now)) + 1"
    by blast
  show ?thesis
  proof (cases "newsapi (trigger_request fd td so query)")
    case (Inl e)
    then show ?thesis
      using s by (simp add: entry trigger_step_def gathered_def answered_def Let_def)
  next
    case (Inr response)
    then show ?thesis
      using t s' n by (simp add: entry trigger_step_def gathered_def answered_def Let_def)
  qed
qed

lemma trigger_loop_ledger:
  assumes v: "valid_date now" and c: "minus_days now 7 = Inr c"
  shows "ledger_store (ledger w) \<Longrightarrow>
         \<exists>w'. foldl (trigger_step newsapi now fd td so) (acc, w) qs =
                 (acc @ concat (map (gathered newsapi fd td so) qs), w') \<and>
           ledger_store (ledger w') \<and>
           count_of (entries (ledger w') (isoformat now)) =
             count_of (entries (ledger w) (isoformat now)) +
             int (length (filter (answered newsapi fd td so) qs))"
proof (induction qs arbitrary: acc w)
  case Nil
  then show ?case by simp
next
  case (Cons entry qs)
  from trigger_step_ledger [OF Cons.prems v c, of newsapi fd td so acc entry]
  obtain w1 where
    st: "trigger_step newsapi now fd td so (acc, w) entry =
           (acc @ gathered newsapi fd td so entry, w1)"
    and l1: "ledger_store (ledger w1)"
    and n1: "count_of (entries (ledger w1) (isoformat now)) =
             count_of (entries (ledger w) (isoformat now)) +
             (if answered newsapi fd td so entry then 1 else 0)" by blast
  from Cons.IH [OF l1, of "acc @ gathered newsapi fd td so entry"] obtain w' where
    lp: "foldl (trigger_step newsapi now fd td so) (acc @ gathered newsapi fd td so entry, w1) qs =
           ((acc @ gathered newsapi fd td so entry) @ concat (map (gathered newsapi fd td so) qs), w')"
    and l': "ledger_store (ledger w')"
    and n': "count_of (entries (ledger w') (isoformat now)) =
             count_of (entries (ledger w1) (isoformat now)) +
             int (length (filter (answered newsapi fd td so) qs))" by blast
  show ?case
    using lp l' n' n1 by (simp add: st)
qed


lemma dict_set_new: "k \<notin> set (map fst d) \<Longrightarrow> dict_set k v d = d @ [(k, v)]"
  by (induction d) auto

lemma with_region_loop:
  "distinct (map fst tq) \<Longrightarrow> set (map fst tq) \<inter> set (map fst acc) = {} \<Longrightarrow>
   foldl (\<lambda>queries_with_region (name, query).
            dict_set name (add_region query r) queries_with_region) acc tq =
   acc @ map (\<lambda>(name, query). (name, add_region query r)) tq"
proof (induction tq arbitrary: acc)
  case Nil
  then show ?case by simp
next
  case (Cons entry tq)
  obtain name query where entry: "entry = (name, query)" by (cases entry)
  from Cons.prems have new: "name \<notin> set (map fst acc)" by (auto simp: entry)
  have "set (map fst tq) \<inter> set (map fst (acc @ [(name, add_region query r)])) = {}"
    using Cons.prems by (auto simp: entry)
  moreover have "distinct (map fst tq)" using Cons.prems by simp
  ultimately show ?case
    using Cons.IH [of "acc @ [(name, add_region query r)]"]
    by (simp add: entry dict_set_new [OF new])
qed

lemma with_region_distinct:
  "distinct (map fst tq) \<Longrightarrow>
   with_region tq r = map (\<lambda>(name, query). (name, add_region query r)) tq"
  using with_region_loop [of tq "[]" r] by (simp add: with_region_def)

lemma fetch_sales_triggers_sent:
  assumes "minus_days now days_back = Inr fd"
  shows "\<exists>res w'. fetch_sales_triggers newsapi now tq days_back so region w = Inr (res, w') \<and>
           sent w' = sent w @
             map (\<lambda>entry. trigger_request (isoformat fd) (isoformat now) so (snd entry))
               (region_queries (case tq of None \<Rightarrow> DEFAULT_TRIGGERS | Some t \<Rightarrow> t) region)"
proof -
  let ?qs = "region_queries (case tq of None \<Rightarrow> DEFAULT_TRIGGERS | Some t \<Rightarrow> t) region"
  let ?st = "foldl (trigger_step newsapi now (isoformat fd) (isoformat now) so) ([], w) ?qs"
  obtain all_articles w' where st: "?st = (all_articles, w')" by (cases ?st)
  have "sent w' = sent w @
          map (\<lambda>entry. trigger_request (isoformat fd) (isoformat now) so (snd entry)) ?qs"
    using trigger_loop_sent [of newsapi now "isoformat fd" "isoformat now" so "([], w)" ?qs]
    by (simp add: st)
  moreover have "fetch_sales_triggers newsapi now tq days_back so region w =
      Inr (\<lparr>status = Some ''ok'',
            totalResults = Some (int (length (deduplicate_articles all_articles))),
            articles = Some (deduplicate_articles all_articles)\<rparr>, w')"
    by (simp add: fetch_sales_triggers_def assms st Let_def)
  ultimately show ?thesis by blast
qed

lemma fetch_sales_triggers_ledger:
  assumes f: "minus_days now days_back = Inr fd"
    and s: "ledger_store (ledger w)" and v: "valid_date now" and c: "minus_days now 7 = Inr c"
    and qs: "qs = region_queries (case tq of None \<Rightarrow> DEFAULT_TRIGGERS | Some t \<Rightarrow> t) region"
    and u: "U = deduplicate_articles
                  (concat (map (gathered newsapi (isoformat fd) (isoformat now) so) qs))"
  shows "\<exists>w'. fetch_sales_triggers newsapi now tq days_back so region w =
                 Inr (\<lparr>status = Some ''ok'', totalResults = Some (int (length U)),
                       articles = Some U\<rparr>, w') \<and>
           ledger_store (ledger w') \<and>
           count_of (entries (ledger w') (isoformat now)) =
             count_of (entries (ledger w) (isoformat now)) +
             int (length (filter (answered newsapi (isoformat fd) (isoformat now) so) qs))"
proof -
  from trigger_loop_ledger [OF v c s, of newsapi "isoformat fd" "isoformat now" so "[]" qs]
  obtain w' where
    lp: "foldl (trigger_step newsapi now (isoformat fd) (isoformat now) so) ([], w) qs =
           (concat (map (gathered newsapi (isoformat fd) (isoformat now) so) qs), w')"
    and l: "ledger_store (ledger w')"
    and n: "count_of (entries (ledger w') (isoformat now)) =
             count_of (entries (ledger w) (isoformat now)) +
             int (length (filter (answered newsapi (isoformat fd) (isoformat now) so) qs))"
    by auto
  have "fetch_sales_triggers newsapi now tq days_back so region w =
          Inr (\<lparr>status = Some ''ok'', totalResults = Some (int (length U)),
                articles = Some U\<rparr>, w')"
    using lp by (simp add: fetch_sales_triggers_def f qs [symmetric] u Let_def)
  with l n show ?thesis by blast
qed

lemma fetch_news_by_query_raised:
  assumes "minus_days now days_back = Inr fd"
    and "r = \<lparr>q = query, from_param = isoformat fd, to = isoformat now, sort_by = so,
              language = ''en'', exclude_domains = Some ''arxiv.org,ieee.org,springer.com''\<rparr>"
    and "newsapi r = Inl e"
  shows "fetch_news_by_query newsapi now query days_back so w =
           Inr (None, w\<lparr>sent := sent w @ [r]\<rparr>)"
  using assms by (simp add: fetch_news_by_query_def Let_def)

lemma fetch_news_by_query_returned:
  assumes f: "minus_days now days_back = Inr fd"
    and s: "ledger_store (ledger w)" and v: "valid_date now" and c: "minus_days now 7 = Inr cutoff"
    and r: "r = \<lparr>q = query, from_param = isoformat fd, to = isoformat now, sort_by = so,
              language = ''en'', exclude_domains = Some ''arxiv.org,ieee.org,springer.com''\<rparr>"
    and a: "newsapi r = Inr response"
  shows "\<exists>w'. fetch_news_by_query newsapi now query days_back so w = Inr (Some response, w') \<and>
           get_api_usage_today now (ledger w') =
             JInt (count_of (entries (ledger w) (isoformat now)) + 1)"
proof -
  from track_api_usage_counts [OF s v c] obtain s' where
    t: "track_api_usage now (ledger w) = Inr s'" and s': "ledger_store s'"
    and n: "count_of (entries s' (isoformat now)) = count_of (entries (ledger w) (isoformat now)) + 1"
    by blast
  have "fetch_news_by_query newsapi now query days_back so w =
          Inr (Some response, w\<lparr>sent := sent w @ [r], ledger := s'\<rparr>)"
    using f a t by (simp add: fetch_news_by_query_def Let_def r [symmetric])
  moreover have "get_api_usage_today now s' =
                   JInt (count_of (entries (ledger w) (isoformat now)) + 1)"
    using get_api_usage_today_ledger [OF s'] n by simp
  ultimately show ?thesis by simp
qed


lemma gathered_unanswered:
  "\<not> answered newsapi fd td so entry \<Longrightarrow> gathered newsapi fd td so entry = []"
  by (cases entry) (simp add: answered_def gathered_def split: sum.splits)

lemma concat_gathered_unanswered:
  "\<forall>entry \<in> set qs. \<not> answered newsapi fd td so entry \<Longrightarrow>
   concat (map (gathered newsapi fd td so) qs) = []"
  by (induction qs) (simp_all add: gathered_unanswered)

lemma dedup_single:
  "url a = Some u \<Longrightarrow> u \<noteq> [] \<Longrightarrow> deduplicate_articles [a] = [a]"
  by (simp add: deduplicate_articles_def dedup_step_def)


section \<open>Ordinals of dates and the 24-hour step\<close>


lemma days_before_month_Suc:
  "1 \<le> m \<Longrightarrow> days_before_month y (Suc m) = days_before_month y m + days_in_month y m"
  by (simp add: days_before_month_def)

lemma days_before_month_1: "days_before_month y (Suc 0) = 0"
  by (simp add: days_before_month_def)

lemma days_before_month_12:
  "days_before_month y 12 = 334 + (if is_leap y then 1 else 0)"
proof -
  have "[1..<12] = [1, 2, 3, 4, 5, 6, 7, 8, 9, 10, 11::nat]"
    by (simp add: upt_rec)
  then show ?thesis
    by (simp add: days_before_month_def days_in_month_def)
qed

lemma div_step:
  fixes k c :: nat
  shows "Suc k div c = k div c + (if Suc k mod c = 0 then 1 else 0)"
  by (simp add: div_Suc)

lemma mod_of_multiple:
  fixes n :: nat
  shows "c dvd b \<Longrightarrow> n mod b = 0 \<Longrightarrow> n mod c = 0"
  by (metis mod_mod_cancel mod_0)

lemma days_before_year_Suc:
  assumes "1 \<le> y"
  shows "days_before_year (Suc y) = days_before_year y + 365 + (if is_leap y then 1 else 0)"
proof -
  from assms obtain k where y: "y = Suc k" by (cases y) auto
  have le: "k div 100 \<le> k div 4" by (rule div_le_mono2) simp_all
  have m1: "Suc k mod 4 = 0" if "Suc k mod 100 = 0"
    using that by (rule mod_of_multiple [rotated]) simp
  have m2: "Suc k mod 100 = 0" if "Suc k mod 400 = 0"
    using that by (rule mod_of_multiple [rotated]) simp
  define A where "A = k div 4"
  define B where "B = k div 100"
  define C where "C = k div 400"
  have le': "B \<le> A" using le by (simp add: A_def B_def)
  have s4: "Suc k div 4 = A + (if Suc k mod 4 = 0 then 1 else 0)"
    and s100: "Suc k div 100 = B + (if Suc k mod 100 = 0 then 1 else 0)"
    and s400: "Suc k div 400 = C + (if Suc k mod 400 = 0 then 1 else 0)"
    by (simp_all only: A_def B_def C_def div_step)
  have main: "Suc k * 365 + Suc k div 4 - Suc k div 100 + Suc k div 400 =
        k * 365 + A - B + C + 365 + (if is_leap (Suc k) then 1 else 0)"
    unfolding s4 s100 s400 is_leap_def
    using le' m1 m2 by auto
  have e1: "days_before_year (Suc (Suc k)) =
              Suc k * 365 + Suc k div 4 - Suc k div 100 + Suc k div 400"
    by (simp add: days_before_year_def)
  have e2: "days_before_year (Suc k) = k * 365 + A - B + C"
    by (simp add: days_before_year_def A_def B_def C_def)
  show ?thesis unfolding y e1 e2 by (rule main)
qed

lemma toordinal_next_day:
  assumes v: "valid_date d" and n: "next_day d = Some e"
  shows "valid_date e \<and> toordinal e = toordinal d + 1"
proof -
  from v have b: "1 \<le> year d" "year d \<le> 9999" "1 \<le> month d" "month d \<le> 12"
    "1 \<le> day d" "day d \<le> days_in_month (year d) (month d)"
    by (simp_all add: valid_date_def)
  consider (day) "day d < days_in_month (year d) (month d)"
    | (month) "day d = days_in_month (year d) (month d)" "month d < 12"
    | (year) "day d = days_in_month (year d) (month d)" "month d = 12" "year d < 9999"
    | (last) "day d = days_in_month (year d) (month d)" "month d = 12" "year d = 9999"
    using b by linarith
  then show ?thesis
  proof cases
    case day
    with n have e: "e = d\<lparr>day := day d + 1\<rparr>" by (simp add: next_day_def)
    show ?thesis unfolding e using b day by (simp add: valid_date_def toordinal_def)
  next
    case month
    with n have e: "e = d\<lparr>month := month d + 1, day := 1\<rparr>" by (simp add: next_day_def)
    have dim: "1 \<le> days_in_month (year d) (month d + 1)"
      using days_in_month_bounds [of "year d" "month d + 1"] by linarith
    have "valid_date e"
      unfolding e valid_date_def using b month(2) dim by simp
    moreover have "toordinal e = toordinal d + 1"
      unfolding e toordinal_def using days_before_month_Suc [OF b(3), of "year d"] month(1)
      by simp
    ultimately show ?thesis ..
  next
    case year
    with n have e: "e = d\<lparr>year := year d + 1, month := 1, day := 1\<rparr>" by (simp add: next_day_def)
    have d31: "day d = 31" using year(1,2) by (simp add: days_in_month_def)
    have "valid_date e"
      unfolding e valid_date_def using b year(3) by (simp add: days_in_month_def)
    moreover have "toordinal e = toordinal d + 1"
      unfolding e toordinal_def
      using days_before_year_Suc [OF b(1)] days_before_month_12 [of "year d"] d31 year(2)
      by (simp add: days_before_month_1)
    ultimately show ?thesis ..
  next
    case last
    with n show ?thesis by (simp add: next_day_def)
  qed
qed

lemma toordinal_pos: "valid_date d \<Longrightarrow> 1 \<le> toordinal d"
  by (simp add: valid_date_def toordinal_def)

lemma plus_hours_24:
  assumes v: "valid_datetime t" and p: "plus_hours t 24 = Inr e"
  shows "next_day (on_date t) = Some (on_date e) \<and> hour e = hour t \<and> minute e = minute t \<and>
         second e = second t \<and> microsecond e = microsecond t \<and> valid_datetime e \<and>
         microseconds e = microseconds t + 24 * 3600000000"
proof -
  from v have h: "hour t < 24" and vd: "valid_date (on_date t)"
    by (simp_all add: valid_datetime_def)
  have dv: "(hour t + 24) div 24 = Suc 0" and md: "(hour t + 24) mod 24 = hour t"
    using h by simp_all
  have ph: "plus_hours t 24 =
              (case days_later (Suc 0) (on_date t) of
                 None \<Rightarrow> Inl OverflowError
               | Some d \<Rightarrow> Inr (t\<lparr>on_date := d, hour := hour t\<rparr>))"
    unfolding plus_hours_def dv md by simp
  from p obtain d where d: "next_day (on_date t) = Some d"
    and e: "e = t\<lparr>on_date := d, hour := hour t\<rparr>"
    unfolding ph by (auto split: option.splits)
  from toordinal_next_day [OF vd d] have vd': "valid_date d"
    and o: "toordinal d = toordinal (on_date t) + 1" by simp_all
  from toordinal_pos [OF vd] obtain k where k: "toordinal (on_date t) = Suc k"
    by (cases "toordinal (on_date t)") auto
  have "microseconds e = microseconds t + 24 * 3600000000"
    unfolding e microseconds_def by (simp add: o k algebra_simps)
  moreover have "valid_datetime e"
    unfolding e using v vd' by (simp add: valid_datetime_def)
  ultimately show ?thesis using d by (simp add: e)
qed

lemma save_news_to_file_falsy:
  "\<not> truthy news_data \<Longrightarrow>
   save_news_to_file data_dir now news_data filename params files = Inr (None, files)"
  by (cases news_data) (simp_all add: save_news_to_file_def)


section \<open>Facts about the example inputs\<close>

lemma minus_days_day0_7: "minus_days day0 7 = Inr \<lparr>year = 2026, month = 10, day = 27\<rparr>"
  by code_simp

lemma minus_days_day0_30: "minus_days day0 30 = Inr \<lparr>year = 2026, month = 10, day = 4\<rparr>"
  by code_simp

lemma valid_day0: "valid_date day0"
  by (simp add: valid_date_def day0_def days_in_month_def)

lemma ledger_world0: "ledger_store (ledger world0)"
  by (simp add: ledger_store_def world0_def)


lemma isoformat_day0: "isoformat day0 = ''2026-11-03''"
  by code_simp

lemma isoformat_examples:
  "isoformat \<lparr>year = 2026, month = 10, day = 26\<rparr> = ''2026-10-26''"
  "isoformat \<lparr>year = 2026, month = 10, day = 27\<rparr> = ''2026-10-27''"
  by code_simp+


lemma distinct_default_triggers: "distinct (map fst DEFAULT_TRIGGERS)"
  by (simp add: DEFAULT_TRIGGERS_def)


lemma digit_chars:
  "char_of (48::nat) = CHR ''0''" "char_of (49::nat) = CHR ''1''" "char_of (50::nat) = CHR ''2''"
  "char_of (51::nat) = CHR ''3''" "char_of (52::nat) = CHR ''4''" "char_of (53::nat) = CHR ''5''"
  "char_of (54::nat) = CHR ''6''" "char_of (55::nat) = CHR ''7''" "char_of (56::nat) = CHR ''8''"
  "char_of (57::nat) = CHR ''9''"
  by code_simp+

lemma valid_clock0: "valid_datetime clock0"
  by (simp add: valid_datetime_def clock0_def valid_day0)

lemma plus_hours_clock0:
  "plus_hours clock0 24 = Inr (clock0\<lparr>on_date := \<lparr>year = 2026, month = 11, day = 4\<rparr>\<rparr>)"
  by (simp add: plus_hours_def clock0_def day0_def next_day_def days_in_month_def)

lemma isoformat_clock0:
  "isoformat_dt clock0 = ''2026-11-03T17:04:05.000123''"
  "isoformat_dt (clock0\<lparr>on_date := \<lparr>year = 2026, month = 11, day = 4\<rparr>\<rparr>) =
     ''2026-11-04T17:04:05.000123''"
  by (simp_all add: isoformat_dt_def isoformat_def pad6_def pad4_def pad2_def digit_def
      clock0_def day0_def digit_chars)


section \<open>Usage tracking by the fetcher\<close>

text \<open>
  Claim C1, amended. A search call increments today's entry of the usage ledger by 1
  when its remote call returns a response. A call whose remote call raises leaves the
  ledger as it was: the fetch returns null and today's count is not incremented. A run
  of \<^verbatim>\<open>fetch_sales_triggers\<close> increments today's entry by the number of catalog entries
  whose remote call returned. The run starts from a ledger of the data model, at a valid
  date of the clock from which the date window and the cutoff can be computed.
\<close>

theorem usage_counted_when_call_returns:
  assumes f: "minus_days now days_back = Inr fd"
    and s: "ledger_store (ledger w)" and v: "valid_date now" and c: "minus_days now 7 = Inr cutoff"
    and r: "r = \<lparr>q = query, from_param = isoformat fd, to = isoformat now, sort_by = so,
              language = ''en'', exclude_domains = Some ''arxiv.org,ieee.org,springer.com''\<rparr>"
  shows "get_api_usage_today now (ledger w) =
           JInt (count_of (entries (ledger w) (isoformat now))) \<and>
         (case newsapi r of
            Inr response \<Rightarrow>
              \<exists>w'. fetch_news_by_query newsapi now query days_back so w =
                     Inr (Some response, w') \<and>
                   get_api_usage_today now (ledger w') =
                     JInt (count_of (entries (ledger w) (isoformat now)) + 1)
          | Inl e \<Rightarrow>
              fetch_news_by_query newsapi now query days_back so w =
                Inr (None, w\<lparr>sent := sent w @ [r]\<rparr>)) \<and>
         (\<exists>res w'. fetch_sales_triggers newsapi now tq days_back so region w = Inr (res, w') \<and>
            get_api_usage_today now (ledger w') =
              JInt (count_of (entries (ledger w) (isoformat now)) +
                int (length (filter (answered newsapi (isoformat fd) (isoformat now) so)
                  (region_queries (case tq of None \<Rightarrow> DEFAULT_TRIGGERS | Some t \<Rightarrow> t)
                     region)))))"
proof -
  have before: "get_api_usage_today now (ledger w) =
                  JInt (count_of (entries (ledger w) (isoformat now)))"
    by (rule get_api_usage_today_ledger [OF s])
  have one: "case newsapi r of
            Inr response \<Rightarrow>
              \<exists>w'. fetch_news_by_query newsapi now query days_back so w =
                     Inr (Some response, w') \<and>
                   get_api_usage_today now (ledger w') =
                     JInt (count_of (entries (ledger w) (isoformat now)) + 1)
          | Inl e \<Rightarrow>
              fetch_news_by_query newsapi now query days_back so w =
                Inr (None, w\<lparr>sent := sent w @ [r]\<rparr>)"
  proof (cases "newsapi r")
    case (Inl e)
    with fetch_news_by_query_raised [where newsapi = newsapi and r = r, OF f r Inl]
    show ?thesis by simp
  next
    case (Inr response)
    with fetch_news_by_query_returned [where newsapi = newsapi and r = r, OF f s v c r Inr]
    show ?thesis by simp
  qed
  from fetch_sales_triggers_ledger
    [where newsapi = newsapi and tq = tq and region = region and so = so, OF f s v c refl refl]
  obtain w' where
    run: "\<exists>res. fetch_sales_triggers newsapi now tq days_back so region w = Inr (res, w')"
    and l: "ledger_store (ledger w')"
    and n: "count_of (entries (ledger w') (isoformat now)) =
             count_of (entries (ledger w) (isoformat now)) +
             int (length (filter (answered newsapi (isoformat fd) (isoformat now) so)
               (region_queries (case tq of None \<Rightarrow> DEFAULT_TRIGGERS | Some t \<Rightarrow> t) region)))"
    by blast
  have "get_api_usage_today now (ledger w') =
          JInt (count_of (entries (ledger w) (isoformat now)) +
            int (length (filter (answered newsapi (isoformat fd) (isoformat now) so)
              (region_queries (case tq of None \<Rightarrow> DEFAULT_TRIGGERS | Some t \<Rightarrow> t) region))))"
    using get_api_usage_today_ledger [OF l] n by simp
  with run before one show ?thesis by blast
qed

theorem usage_counted_when_call_returns_witness:
  "(\<exists>w'. fetch_news_by_query scenario_api day0 ''foo'' 30 ''publishedAt'' world0 =
          Inr (Some \<lparr>status = Some ''ok'', totalResults = Some 2,
                     articles = Some [art ''u1'', art ''u2'']\<rparr>, w') \<and>
        get_api_usage_today day0 (ledger w') = JInt 1) \<and>
   fetch_news_by_query failing_api day0 ''foo'' 30 ''publishedAt'' world0 =
     Inr (None, world0\<lparr>sent := [\<lparr>q = ''foo'', from_param = ''2026-10-04'',
        to = ''2026-11-03'', sort_by = ''publishedAt'', language = ''en'',
        exclude_domains = Some ''arxiv.org,ieee.org,springer.com''\<rparr>]\<rparr>) \<and>
   (\<exists>res w'. fetch_sales_triggers partial_api day0 (Some [(''A'', ''foo''), (''B'', ''bar'')])
          30 ''publishedAt'' None world0 = Inr (res, w') \<and>
      get_api_usage_today day0 (ledger w') = JInt 1)"
proof -
  have e: "count_of (entries (ledger world0) (isoformat day0)) = 0"
    by (simp add: world0_def entries_def load_usage_def count_of_def)
  have i: "isoformat \<lparr>year = 2026, month = 10, day = 4\<rparr> = ''2026-10-04''"
    by code_simp
  note t = usage_counted_when_call_returns
    [OF minus_days_day0_30 ledger_world0 valid_day0 minus_days_day0_7 refl]
  from t [where query = "''foo''" and so = "''publishedAt''" and newsapi = scenario_api]
  have a: "\<exists>w'. fetch_news_by_query scenario_api day0 ''foo'' 30 ''publishedAt'' world0 =
          Inr (Some \<lparr>status = Some ''ok'', totalResults = Some 2,
                     articles = Some [art ''u1'', art ''u2'']\<rparr>, w') \<and>
        get_api_usage_today day0 (ledger w') = JInt 1"
    by (simp add: scenario_api_def e)
  from t [where query = "''foo''" and so = "''publishedAt''" and newsapi = failing_api]
  have b: "fetch_news_by_query failing_api day0 ''foo'' 30 ''publishedAt'' world0 =
     Inr (None, world0\<lparr>sent := [\<lparr>q = ''foo'', from_param = ''2026-10-04'',
        to = ''2026-11-03'', sort_by = ''publishedAt'', language = ''en'',
        exclude_domains = Some ''arxiv.org,ieee.org,springer.com''\<rparr>]\<rparr>)"
    by (simp add: failing_api_def world0_def i isoformat_day0)
  from t [where so = "''publishedAt''" and newsapi = partial_api
      and tq = "Some [(''A'', ''foo''), (''B'', ''bar'')]" and region = None]
  have c: "\<exists>res w'. fetch_sales_triggers partial_api day0 (Some [(''A'', ''foo''), (''B'', ''bar'')])
          30 ''publishedAt'' None world0 = Inr (res, w') \<and>
      get_api_usage_today day0 (ledger w') = JInt 1"
    by (simp add: e region_queries_def answered_def partial_api_def trigger_request_def)
  from a b c show ?thesis by blast
qed

text \<open>
  Claim C1 as stated fails: the remote call below is attempted and raises after the
  server has answered; the fetch returns null, and today's count is 0 before and after.
\<close>

theorem failed_fetch_is_not_counted:
  "fetch_news_by_query failing_api day0 ''patent'' 30 ''publishedAt'' world0 =
     Inr (None,
          \<lparr>ledger = Missing,
           sent = [\<lparr>q = ''patent'', from_param = ''2026-10-04'', to = ''2026-11-03'',
                    sort_by = ''publishedAt'', language = ''en'',
                    exclude_domains = Some ''arxiv.org,ieee.org,springer.com''\<rparr>]\<rparr>) \<and>
   get_api_usage_today day0 (ledger world0) = JInt 0 \<and>
   get_api_usage_today day0 Missing = JInt 0"
proof -
  have i: "isoformat \<lparr>year = 2026, month = 10, day = 4\<rparr> = ''2026-10-04''"
    by code_simp
  show ?thesis
    by (simp add: fetch_news_by_query_def minus_days_day0_30 failing_api_def world0_def
        get_api_usage_today_def i isoformat_day0)
qed

section \<open>Domain exclusion\<close>

text \<open>
  Claim C2 fails on the code. \<^verbatim>\<open>fetch_news_by_query\<close> passes the exclusion of the
  journal domains, but \<^verbatim>\<open>fetch_sales_triggers\<close> calls the client itself and passes
  no \<open>exclude_domains\<close>: for the default catalog, the three requests it issues carry
  none, while the request of \<^verbatim>\<open>fetch_news_by_query\<close> for the same service does.
\<close>

theorem sales_trigger_requests_carry_no_exclusion:
  "(\<exists>res w'. fetch_sales_triggers failing_api day0 None 7 ''publishedAt'' None world0 =
               Inr (res, w') \<and>
      map q (sent w') = map snd DEFAULT_TRIGGERS \<and>
      map exclude_domains (sent w') = [None, None, None]) \<and>
   (\<exists>res w'. fetch_news_by_query failing_api day0 ''patent'' 7 ''publishedAt'' world0 =
               Inr (res, w') \<and>
      map exclude_domains (sent w') = [Some ''arxiv.org,ieee.org,springer.com''])"
proof -
  from fetch_sales_triggers_sent [OF minus_days_day0_7, of failing_api None "''publishedAt''" None world0]
  have "\<exists>res w'. fetch_sales_triggers failing_api day0 None 7 ''publishedAt'' None world0 =
               Inr (res, w') \<and>
      map q (sent w') = map snd DEFAULT_TRIGGERS \<and>
      map exclude_domains (sent w') = [None, None, None]"
    by (auto simp: region_queries_def world0_def trigger_request_def DEFAULT_TRIGGERS_def)
  moreover have "\<exists>res w'. fetch_news_by_query failing_api day0 ''patent'' 7 ''publishedAt'' world0 =
               Inr (res, w') \<and>
      map exclude_domains (sent w') = [Some ''arxiv.org,ieee.org,springer.com'']"
    by (simp add: fetch_news_by_query_def minus_days_day0_7 failing_api_def world0_def)
  ultimately show ?thesis by blast
qed
section \<open>The end-to-end scenario\<close>

text \<open>
  Claim C3. For the catalog \<open>{"A": "foo", "B": "bar"}\<close>, where the query of \<open>A\<close>
  returns the articles with URLs \<open>u1\<close>, \<open>u2\<close> and the query of \<open>B\<close> those with
  URLs \<open>u2\<close>, \<open>u3\<close>, \<^verbatim>\<open>fetch_sales_triggers\<close> returns \<open>u1\<close> and \<open>u2\<close> tagged
  \<open>A\<close> and \<open>u3\<close> tagged \<open>B\<close>, in this order, and \<open>totalResults\<close> is 3. The run
  starts from a ledger of the data model, at a valid date of the clock from which the
  date window and the cutoff of the ledger can be computed.
\<close>

theorem sales_triggers_scenario:
  assumes f: "minus_days now days_back = Inr fd"
    and s: "ledger_store (ledger w)" and v: "valid_date now" and c: "minus_days now 7 = Inr c"
    and a: "newsapi (trigger_request (isoformat fd) (isoformat now) so ''foo'') =
              Inr \<lparr>status = Some ''ok'', totalResults = ta,
                   articles = Some [art ''u1'', art ''u2'']\<rparr>"
    and b: "newsapi (trigger_request (isoformat fd) (isoformat now) so ''bar'') =
              Inr \<lparr>status = Some ''ok'', totalResults = tb,
                   articles = Some [art ''u2'', art ''u3'']\<rparr>"
  shows "\<exists>w'. fetch_sales_triggers newsapi now (Some [(''A'', ''foo''), (''B'', ''bar'')])
                days_back so None w =
           Inr (\<lparr>status = Some ''ok'', totalResults = Some 3,
                 articles = Some [\<lparr>url = Some ''u1'', trigger_type = Some ''A'', rest = []\<rparr>,
                                  \<lparr>url = Some ''u2'', trigger_type = Some ''A'', rest = []\<rparr>,
                                  \<lparr>url = Some ''u3'', trigger_type = Some ''B'', rest = []\<rparr>]\<rparr>, w')"
proof -
  let ?qs = "[(''A'', ''foo''), (''B'', ''bar'')]"
  let ?all = "concat (map (gathered newsapi (isoformat fd) (isoformat now) so) ?qs)"
  have qs: "?qs = region_queries (case Some ?qs of None \<Rightarrow> DEFAULT_TRIGGERS | Some t \<Rightarrow> t) None"
    by (simp add: region_queries_def)
  have g: "?all = [tag ''A'' (art ''u1''), tag ''A'' (art ''u2''),
                   tag ''B'' (art ''u2''), tag ''B'' (art ''u3'')]"
    by (simp add: gathered_def a b collected_def)
  have u: "deduplicate_articles ?all =
             [tag ''A'' (art ''u1''), tag ''A'' (art ''u2''), tag ''B'' (art ''u3'')]"
    unfolding g by (simp add: deduplicate_articles_def dedup_step_def tag_def art_def)
  from fetch_sales_triggers_ledger [OF f s v c qs refl, of newsapi so]
  show ?thesis
    unfolding u by (auto simp: tag_def art_def)
qed

theorem sales_triggers_scenario_witness:
  "\<exists>w'. fetch_sales_triggers scenario_api day0 (Some [(''A'', ''foo''), (''B'', ''bar'')])
           7 ''publishedAt'' None world0 =
     Inr (\<lparr>status = Some ''ok'', totalResults = Some 3,
           articles = Some [\<lparr>url = Some ''u1'', trigger_type = Some ''A'', rest = []\<rparr>,
                            \<lparr>url = Some ''u2'', trigger_type = Some ''A'', rest = []\<rparr>,
                            \<lparr>url = Some ''u3'', trigger_type = Some ''B'', rest = []\<rparr>]\<rparr>, w')"
  by (rule sales_triggers_scenario [OF minus_days_day0_7 ledger_world0 valid_day0 minus_days_day0_7])
    (simp_all add: scenario_api_def trigger_request_def)

section \<open>The deduplicator\<close>

text \<open>
  Claim C4. For every sequence of articles, \<open>dedupe\<close> returns the stable left-to-right
  filter of its input that keeps an article exactly when its URL is present and
  non-empty and no earlier article has the same URL, whatever else the articles hold;
  so the URLs of the output are non-empty and pairwise distinct.
\<close>

theorem deduplicate_articles_stable_filter:
  "deduplicate_articles L = dedupe_spec L \<and>
   distinct (map url (deduplicate_articles L)) \<and>
   (\<forall>a \<in> set (deduplicate_articles L). \<exists>u. url a = Some u \<and> u \<noteq> [])"
  using dedup_is_spec [of L] dedup_distinct [of L] dedup_has_url [of _ L] by blast

theorem deduplicate_articles_stable_filter_witness:
  "deduplicate_articles
     [art ''u1'', art ''u2'', (art ''u2'')\<lparr>rest := [(''title'', JStr ''other'')]\<rparr>,
      art '''', (art ''x'')\<lparr>url := None\<rparr>, art ''u3'', art ''u1''] =
   [art ''u1'', art ''u2'', art ''u3'']"
proof -
  let ?L = "[art ''u1'', art ''u2'', (art ''u2'')\<lparr>rest := [(''title'', JStr ''other'')]\<rparr>,
      art '''', (art ''x'')\<lparr>url := None\<rparr>, art ''u3'', art ''u1'']"
  have "dedupe_spec ?L = [art ''u1'', art ''u2'', art ''u3'']"
    by (simp add: dedupe_spec_def kept_def art_def upt_rec [of 0] upt_rec [of 1] upt_rec [of 2]
        upt_rec [of 3] upt_rec [of 4] upt_rec [of 5] upt_rec [of 6] upt_rec [of 7])
  with deduplicate_articles_stable_filter [of ?L] show ?thesis by simp
qed

text \<open>
  Claim C5. Deduplication is idempotent: \<open>dedupe (dedupe L) = dedupe L\<close> for every list
  of articles \<open>L\<close>.
\<close>

theorem deduplicate_articles_idempotent:
  "deduplicate_articles (deduplicate_articles L) = deduplicate_articles L"
  by (rule dedup_idem)

theorem deduplicate_articles_idempotent_witness:
  "deduplicate_articles (deduplicate_articles [art ''u1'', art '''', art ''u1'', art ''u2'']) =
   [art ''u1'', art ''u2'']"
proof -
  have "deduplicate_articles [art ''u1'', art '''', art ''u1'', art ''u2''] =
        [art ''u1'', art ''u2'']"
    by (simp add: deduplicate_articles_def dedup_step_def art_def)
  with deduplicate_articles_idempotent [of "[art ''u1'', art '''', art ''u1'', art ''u2'']"]
  show ?thesis by simp
qed

section \<open>The usage tracker\<close>

text \<open>
  Claim C6. \<open>record_call\<close> on a ledger of the data model: an absent or undecodable
  store counts as the empty mapping; today's bucket is incremented by 1 (created at 1
  if absent); every bucket whose date is strictly older than today minus 7 days is
  dropped, and the buckets of the cutoff date and of newer dates are retained; the
  result is what the store holds afterwards. One call on an empty store leaves exactly
  \<open>{today: 1}\<close>.
\<close>

theorem track_api_usage_postcondition:
  assumes s: "ledger_store s" and v: "valid_date now" and c: "minus_days now 7 = Inr cutoff"
  shows "track_api_usage now Garbled = track_api_usage now (Content (JObj [])) \<and>
         track_api_usage now Missing = track_api_usage now (Content (JObj [])) \<and>
         (\<exists>d. track_api_usage now s = Inr (Content (JObj d)) \<and>
            map_of d = record_call_spec (isoformat now) (isoformat cutoff) (entries s) \<and>
            map_of d (isoformat now) = Some (JInt (count_of (entries s (isoformat now)) + 1)) \<and>
            (\<forall>b. valid_date b \<longrightarrow>
               (date_less b cutoff \<longrightarrow> map_of d (isoformat b) = None) \<and>
               (date_le cutoff b \<and> b \<noteq> now \<longrightarrow>
                  map_of d (isoformat b) = entries s (isoformat b))) \<and>
            (entries s = Map.empty \<longrightarrow> d = [(isoformat now, JInt 1)]))"
proof -
  from minus_days_valid [OF v _ c] have vc: "valid_date cutoff" and le: "date_le cutoff now"
    by simp_all
  have today: "isoformat cutoff \<le> isoformat now"
    using isoformat_le [OF vc v] le by simp
  from track_api_usage_ledger [OF s c] obtain d where
    r: "track_api_usage now s = Inr (Content (JObj d))"
    and m: "map_of d = record_call_spec (isoformat now) (isoformat cutoff) (entries s)"
    and e: "entries s = Map.empty \<and> isoformat cutoff \<le> isoformat now \<longrightarrow>
            d = [(isoformat now, JInt 1)]" by blast
  have t: "map_of d (isoformat now) = Some (JInt (count_of (entries s (isoformat now)) + 1))"
    using today by (simp add: m record_call_spec_def not_less [symmetric])
  have old: "map_of d (isoformat b) = None" if "valid_date b" "date_less b cutoff" for b
    using isoformat_less [OF that(1) vc] that(2) by (simp add: m record_call_spec_def)
  have new: "map_of d (isoformat b) = entries s (isoformat b)"
    if "valid_date b" "date_le cutoff b" "b \<noteq> now" for b
  proof -
    have "\<not> isoformat b < isoformat cutoff"
      using isoformat_less [OF that(1) vc] date_le_not_less [OF that(2)] by simp
    moreover have "isoformat b \<noteq> isoformat now"
      using isoformat_inject [OF that(1) v] that(3) by simp
    ultimately show ?thesis by (simp add: m record_call_spec_def)
  qed
  have g: "track_api_usage now Garbled = track_api_usage now (Content (JObj []))"
    "track_api_usage now Missing = track_api_usage now (Content (JObj []))"
    by (simp_all add: track_api_usage_def load_usage_def)
  from r m t old new e today g show ?thesis by blast
qed

theorem track_api_usage_postcondition_witness:
  "track_api_usage day0 Missing = Inr (Content (JObj [(''2026-11-03'', JInt 1)])) \<and>
   (\<exists>d. track_api_usage day0 ledger0 = Inr (Content (JObj d)) \<and>
      map_of d ''2026-11-03'' = Some (JInt 10) \<and>
      map_of d ''2026-10-27'' = Some (JInt 4) \<and>
      map_of d ''2026-10-26'' = None)"
proof -
  have l: "ledger_store ledger0"
    by (simp add: ledger_store_def ledger0_def is_count_def)
  have m: "ledger_store Missing"
    by (simp add: ledger_store_def)
  have v: "valid_date \<lparr>year = 2026, month = 10, day = 26\<rparr>"
    "valid_date \<lparr>year = 2026, month = 10, day = 27\<rparr>"
    by (simp_all add: valid_date_def days_in_month_def)
  have e: "count_of (entries ledger0 ''2026-11-03'') = 9"
    "entries ledger0 ''2026-10-27'' = Some (JInt 4)"
    by (simp_all add: entries_def load_usage_def ledger0_def count_of_def)
  have o: "date_less \<lparr>year = 2026, month = 10, day = 26\<rparr> \<lparr>year = 2026, month = 10, day = 27\<rparr>"
    "date_le \<lparr>year = 2026, month = 10, day = 27\<rparr> \<lparr>year = 2026, month = 10, day = 27\<rparr>"
    "\<lparr>year = 2026, month = 10, day = 27\<rparr> \<noteq> day0"
    by (simp_all add: date_less_def date_le_def day0_def)
  from track_api_usage_postcondition [OF m valid_day0 minus_days_day0_7]
  have "track_api_usage day0 Missing = Inr (Content (JObj [(''2026-11-03'', JInt 1)]))"
    by (auto simp: entries_empty isoformat_day0)
  moreover have "\<exists>d. track_api_usage day0 ledger0 = Inr (Content (JObj d)) \<and>
      map_of d ''2026-11-03'' = Some (JInt 10) \<and>
      map_of d ''2026-10-27'' = Some (JInt 4) \<and>
      map_of d ''2026-10-26'' = None"
  proof -
    from track_api_usage_postcondition [OF l valid_day0 minus_days_day0_7] obtain d where
      r: "track_api_usage day0 ledger0 = Inr (Content (JObj d))"
      and t: "map_of d (isoformat day0) =
              Some (JInt (count_of (entries ledger0 (isoformat day0)) + 1))"
      and b: "\<forall>b. valid_date b \<longrightarrow>
               (date_less b \<lparr>year = 2026, month = 10, day = 27\<rparr> \<longrightarrow>
                  map_of d (isoformat b) = None) \<and>
               (date_le \<lparr>year = 2026, month = 10, day = 27\<rparr> b \<and> b \<noteq> day0 \<longrightarrow>
                  map_of d (isoformat b) = entries ledger0 (isoformat b))"
      by blast
    from t have "map_of d ''2026-11-03'' = Some (JInt 10)"
      by (simp add: isoformat_day0 e)
    moreover from b v(2) o(2,3) have "map_of d ''2026-10-27'' = Some (JInt 4)"
      using isoformat_examples(2) e(2) by fastforce
    moreover from b v(1) o(1) have "map_of d ''2026-10-26'' = None"
      using isoformat_examples(1) by fastforce
    ultimately show ?thesis using r by blast
  qed
  ultimately show ?thesis by blast
qed

section \<open>The region clause\<close>

text \<open>
  Claim C7. When a region is given (a non-empty string), every catalog query \<open>Q\<close> is
  rewritten to exactly \<open>(Q) AND region\<close> before it is executed: the requests issued
  are those of the rewritten queries, one per catalog entry, in catalog order. The
  catalog is a \<^verbatim>\<open>dict\<close>, so its labels are distinct.
\<close>

theorem region_rewrites_every_query:
  assumes f: "minus_days now days_back = Inr fd"
    and r: "region \<noteq> []"
    and t: "catalog = (case tq of None \<Rightarrow> DEFAULT_TRIGGERS | Some t \<Rightarrow> t)"
    and d: "distinct (map fst catalog)"
  shows "\<exists>res w'. fetch_sales_triggers newsapi now tq days_back so (Some region) w =
                    Inr (res, w') \<and>
           sent w' = sent w @
             map (\<lambda>(name, Q). trigger_request (isoformat fd) (isoformat now) so
                    (''('' @ Q @ '') AND '' @ region)) catalog"
proof -
  have "region_queries catalog (Some region) =
          map (\<lambda>(name, query). (name, add_region query region)) catalog"
    using r by (simp add: region_queries_def with_region_distinct [OF d])
  then have "map (\<lambda>entry. trigger_request (isoformat fd) (isoformat now) so (snd entry))
               (region_queries catalog (Some region)) =
             map (\<lambda>(name, Q). trigger_request (isoformat fd) (isoformat now) so
                    (''('' @ Q @ '') AND '' @ region)) catalog"
    by (simp add: add_region_def case_prod_beta)
  with fetch_sales_triggers_sent [OF f, of newsapi tq so "Some region" w]
  show ?thesis by (simp add: t)
qed

theorem region_rewrites_every_query_witness:
  "\<exists>res w'. fetch_sales_triggers failing_api day0 (Some [(''A'', ''foo''), (''B'', ''bar'')])
               7 ''publishedAt'' (Some ''Singapore'') world0 = Inr (res, w') \<and>
      map q (sent w') = [''(foo) AND Singapore'', ''(bar) AND Singapore'']"
proof -
  from region_rewrites_every_query
    [where region = "''Singapore''" and tq = "Some [(''A'', ''foo''), (''B'', ''bar'')]"
      and newsapi = failing_api and so = "''publishedAt''" and w = world0,
     OF minus_days_day0_7 _ refl]
  obtain res w' where
    "fetch_sales_triggers failing_api day0 (Some [(''A'', ''foo''), (''B'', ''bar'')])
       7 ''publishedAt'' (Some ''Singapore'') world0 = Inr (res, w')"
    and "sent w' = sent world0 @
             map (\<lambda>(name, Q). trigger_request (isoformat \<lparr>year = 2026, month = 10, day = 27\<rparr>)
                    (isoformat day0) ''publishedAt'' (''('' @ Q @ '') AND '' @ ''Singapore''))
               [(''A'', ''foo''), (''B'', ''bar'')]"
    by auto
  then show ?thesis
    by (auto simp: world0_def trigger_request_def)
qed

text \<open>
  Claim C10. With the empty string as region no query is rewritten:
  \<^verbatim>\<open>fetch_sales_triggers\<close> behaves exactly as with no region, and the requests issued
  carry the catalog queries unmodified.
\<close>

theorem empty_region_is_no_region:
  "fetch_sales_triggers newsapi now tq days_back so (Some []) w =
     fetch_sales_triggers newsapi now tq days_back so None w \<and>
   (\<forall>fd. minus_days now days_back = Inr fd \<longrightarrow>
      (\<exists>res w'. fetch_sales_triggers newsapi now tq days_back so (Some []) w = Inr (res, w') \<and>
         sent w' = sent w @
           map (\<lambda>(name, Q). trigger_request (isoformat fd) (isoformat now) so Q)
             (case tq of None \<Rightarrow> DEFAULT_TRIGGERS | Some t \<Rightarrow> t)))"
proof -
  have same: "fetch_sales_triggers newsapi now tq days_back so (Some []) w =
     fetch_sales_triggers newsapi now tq days_back so None w"
    by (simp add: fetch_sales_triggers_def region_queries_def)
  have "\<exists>res w'. fetch_sales_triggers newsapi now tq days_back so (Some []) w = Inr (res, w') \<and>
         sent w' = sent w @
           map (\<lambda>(name, Q). trigger_request (isoformat fd) (isoformat now) so Q)
             (case tq of None \<Rightarrow> DEFAULT_TRIGGERS | Some t \<Rightarrow> t)"
    if f: "minus_days now days_back = Inr fd" for fd
  proof -
    let ?cat = "case tq of None \<Rightarrow> DEFAULT_TRIGGERS | Some t \<Rightarrow> t"
    have m: "map (\<lambda>entry. trigger_request (isoformat fd) (isoformat now) so (snd entry)) ?cat =
             map (\<lambda>(name, Q). trigger_request (isoformat fd) (isoformat now) so Q) ?cat"
      by (rule map_cong) auto
    from fetch_sales_triggers_sent [OF f, of newsapi tq so "Some []" w] obtain res w' where
      "fetch_sales_triggers newsapi now tq days_back so (Some []) w = Inr (res, w')"
      and "sent w' = sent w @
             map (\<lambda>entry. trigger_request (isoformat fd) (isoformat now) so (snd entry)) ?cat"
      by (auto simp: region_queries_def)
    then show ?thesis unfolding m by blast
  qed
  with same show ?thesis by blast
qed

theorem empty_region_is_no_region_witness:
  "\<exists>res w'. fetch_sales_triggers failing_api day0 (Some [(''A'', ''foo''), (''B'', ''bar'')])
               7 ''publishedAt'' (Some []) world0 = Inr (res, w') \<and>
      map q (sent w') = [''foo'', ''bar'']"
proof -
  from empty_region_is_no_region
    [where tq = "Some [(''A'', ''foo''), (''B'', ''bar'')]" and now = day0
      and days_back = 7 and newsapi = failing_api and so = "''publishedAt''" and w = world0,
     THEN conjunct2, rule_format, OF minus_days_day0_7]
  obtain res w' where
    "fetch_sales_triggers failing_api day0 (Some [(''A'', ''foo''), (''B'', ''bar'')])
       7 ''publishedAt'' (Some []) world0 = Inr (res, w')"
    and "sent w' = sent world0 @
           map (\<lambda>(name, Q). trigger_request (isoformat \<lparr>year = 2026, month = 10, day = 27\<rparr>)
                  (isoformat day0) ''publishedAt'' Q)
             [(''A'', ''foo''), (''B'', ''bar'')]"
    by auto
  then show ?thesis
    by (auto simp: world0_def trigger_request_def)
qed

section \<open>Partial failure\<close>

text \<open>
  Claim C8. A failure of one query is not fatal to \<^verbatim>\<open>fetch_sales_triggers\<close>: once the
  date window is computed, the call returns a result whatever the remote calls raise,
  and one request has been issued for every catalog entry, so the queries after a
  failed one still run. If one query succeeds with one article (which has a URL) and the
  others raise, the batch result holds exactly that article, tagged with its label.
\<close>

theorem query_failure_is_not_fatal:
  assumes f: "minus_days now days_back = Inr fd"
    and q: "qs = region_queries (case tq of None \<Rightarrow> DEFAULT_TRIGGERS | Some t \<Rightarrow> t) region"
  shows "\<exists>res w'. fetch_sales_triggers newsapi now tq days_back so region w = Inr (res, w') \<and>
           sent w' = sent w @
             map (\<lambda>entry. trigger_request (isoformat fd) (isoformat now) so (snd entry)) qs \<and>
           (ledger_store (ledger w) \<and> valid_date now \<and> minus_days now 7 = Inr cutoff \<and>
            qs = pre @ [(label, query)] @ post \<and>
            (\<forall>entry \<in> set (pre @ post).
               \<not> answered newsapi (isoformat fd) (isoformat now) so entry) \<and>
            newsapi (trigger_request (isoformat fd) (isoformat now) so query) = Inr response \<and>
            status response = Some ''ok'' \<and> articles response = Some [a] \<and>
            url a = Some u \<and> u \<noteq> []
            \<longrightarrow> res = \<lparr>status = Some ''ok'', totalResults = Some 1,
                       articles = Some [tag label a]\<rparr>)"
proof -
  from fetch_sales_triggers_sent [OF f, of newsapi tq so region w] obtain res w' where
    run: "fetch_sales_triggers newsapi now tq days_back so region w = Inr (res, w')"
    and snt: "sent w' = sent w @
             map (\<lambda>entry. trigger_request (isoformat fd) (isoformat now) so (snd entry)) qs"
    unfolding q by blast
  have "res = \<lparr>status = Some ''ok'', totalResults = Some 1, articles = Some [tag label a]\<rparr>"
    if s: "ledger_store (ledger w)" and v: "valid_date now" and c: "minus_days now 7 = Inr cutoff"
      and split: "qs = pre @ [(label, query)] @ post"
      and fail: "\<forall>entry \<in> set (pre @ post).
               \<not> answered newsapi (isoformat fd) (isoformat now) so entry"
      and ok: "newsapi (trigger_request (isoformat fd) (isoformat now) so query) = Inr response"
      and st: "status response = Some ''ok''" and ar: "articles response = Some [a]"
      and u: "url a = Some u" "u \<noteq> []"
  proof -
    let ?g = "gathered newsapi (isoformat fd) (isoformat now) so"
    have pre: "concat (map ?g pre) = []" and post: "concat (map ?g post) = []"
      using fail by (simp_all add: concat_gathered_unanswered)
    have one: "?g (label, query) = [tag label a]"
      by (simp add: gathered_def ok collected_def st ar)
    have all: "concat (map ?g qs) = [tag label a]"
      by (simp add: split pre post one)
    have "url (tag label a) = Some u" using u(1) by (simp add: tag_def)
    then have dd: "deduplicate_articles (concat (map ?g qs)) = [tag label a]"
      unfolding all using u(2) by (rule dedup_single)
    from fetch_sales_triggers_ledger [OF f s v c q refl, of newsapi so]
    show ?thesis unfolding dd using run by auto
  qed
  with run snt show ?thesis by blast
qed

theorem query_failure_is_not_fatal_witness:
  "\<exists>w'. fetch_sales_triggers partial_api day0 (Some [(''A'', ''foo''), (''B'', ''bar'')])
           7 ''publishedAt'' None world0 =
     Inr (\<lparr>status = Some ''ok'', totalResults = Some 1,
           articles = Some [\<lparr>url = Some ''u9'', trigger_type = Some ''B'', rest = []\<rparr>]\<rparr>, w') \<and>
     map q (sent w') = [''foo'', ''bar'']"
proof -
  from query_failure_is_not_fatal
    [where tq = "Some [(''A'', ''foo''), (''B'', ''bar'')]" and region = None
      and newsapi = partial_api and so = "''publishedAt''" and w = world0
      and pre = "[(''A'', ''foo'')]" and post = "[]" and label = "''B''" and query = "''bar''"
      and response = "\<lparr>status = Some ''ok'', totalResults = Some 1,
                        articles = Some [art ''u9'']\<rparr>"
      and a = "art ''u9''" and u = "''u9''" and cutoff = "\<lparr>year = 2026, month = 10, day = 27\<rparr>",
     OF minus_days_day0_7 refl]
  obtain res w' where
    run: "fetch_sales_triggers partial_api day0 (Some [(''A'', ''foo''), (''B'', ''bar'')])
           7 ''publishedAt'' None world0 = Inr (res, w')"
    and snt: "sent w' = sent world0 @
             map (\<lambda>entry. trigger_request (isoformat \<lparr>year = 2026, month = 10, day = 27\<rparr>)
                    (isoformat day0) ''publishedAt'' (snd entry))
               (region_queries [(''A'', ''foo''), (''B'', ''bar'')] None)"
    and res: "ledger_store (ledger world0) \<and> valid_date day0 \<and>
            minus_days day0 7 = Inr \<lparr>year = 2026, month = 10, day = 27\<rparr> \<and>
            region_queries [(''A'', ''foo''), (''B'', ''bar'')] None =
              [(''A'', ''foo'')] @ [(''B'', ''bar'')] @ [] \<and>
            (\<forall>entry \<in> set ([(''A'', ''foo'')] @ []).
               \<not> answered partial_api (isoformat \<lparr>year = 2026, month = 10, day = 27\<rparr>)
                    (isoformat day0) ''publishedAt'' entry) \<and>
            partial_api (trigger_request (isoformat \<lparr>year = 2026, month = 10, day = 27\<rparr>)
                    (isoformat day0) ''publishedAt'' ''bar'') =
              Inr \<lparr>status = Some ''ok'', totalResults = Some 1, articles = Some [art ''u9'']\<rparr> \<and>
            status \<lparr>status = Some ''ok'', totalResults = Some 1,
                    articles = Some [art ''u9'']\<rparr> = Some ''ok'' \<and>
            articles \<lparr>status = Some ''ok'', totalResults = Some 1,
                      articles = Some [art ''u9'']\<rparr> = Some [art ''u9''] \<and>
            url (art ''u9'') = Some ''u9'' \<and> ''u9'' \<noteq> []
            \<longrightarrow> res = \<lparr>status = Some ''ok'', totalResults = Some 1,
                       articles = Some [tag ''B'' (art ''u9'')]\<rparr>"
    by auto
  have "res = \<lparr>status = Some ''ok'', totalResults = Some 1,
                articles = Some [tag ''B'' (art ''u9'')]\<rparr>"
    using res ledger_world0 valid_day0 minus_days_day0_7
    by (simp add: region_queries_def answered_def partial_api_def trigger_request_def art_def)
  with run snt show ?thesis
    by (auto simp: tag_def art_def world0_def region_queries_def trigger_request_def)
qed

section \<open>Saving the result\<close>

text \<open>
  Claim C9. \<open>save\<close> does nothing and returns null when the result is absent or empty.
  Otherwise it writes, at the path it returns, a document that wraps the result with
  metadata: \<open>fetched_at\<close> is the reading of the clock, \<open>expires_at\<close> is that reading plus
  exactly 24 hours, and \<open>query_params\<close> holds the parameters it was given (the empty
  mapping when none were given). The clock shows a valid time whose next day is still a
  date of the calendar.
\<close>

theorem save_news_to_file_contract:
  assumes v: "valid_datetime now"
  shows "(\<not> truthy news_data \<longrightarrow>
            save_news_to_file data_dir now news_data filename params files =
              Inr (None, files)) \<and>
         (\<forall>n expires. news_data = Some n \<and> truthy news_data \<and>
              plus_hours now 24 = Inr expires \<longrightarrow>
            (\<exists>doc. save_news_to_file data_dir now news_data filename params files =
                     Inr (Some (path_join data_dir filename),
                          files(path_join data_dir filename \<mapsto> doc)) \<and>
               status doc = status n \<and> totalResults doc = totalResults n \<and>
               articles doc = Some (case articles n of None \<Rightarrow> [] | Some as \<Rightarrow> as) \<and>
               fetched_at (metadata doc) = isoformat_dt now \<and>
               expires_at (metadata doc) = isoformat_dt expires \<and>
               valid_datetime expires \<and>
               microseconds expires = microseconds now + 24 * 3600000000 \<and>
               query_params (metadata doc) = (case params of None \<Rightarrow> [] | Some p \<Rightarrow> p)))"
proof -
  have written: "\<exists>doc. save_news_to_file data_dir now news_data filename params files =
                     Inr (Some (path_join data_dir filename),
                          files(path_join data_dir filename \<mapsto> doc)) \<and>
               status doc = status n \<and> totalResults doc = totalResults n \<and>
               articles doc = Some (case articles n of None \<Rightarrow> [] | Some as \<Rightarrow> as) \<and>
               fetched_at (metadata doc) = isoformat_dt now \<and>
               expires_at (metadata doc) = isoformat_dt expires \<and>
               valid_datetime expires \<and>
               microseconds expires = microseconds now + 24 * 3600000000 \<and>
               query_params (metadata doc) = (case params of None \<Rightarrow> [] | Some p \<Rightarrow> p)"
    if n: "news_data = Some n" and t: "truthy news_data" and p: "plus_hours now 24 = Inr expires"
    for n expires
  proof -
    from plus_hours_24 [OF v p] have e: "valid_datetime expires"
      "microseconds expires = microseconds now + 24 * 3600000000" by simp_all
    let ?doc = "\<lparr>status = status n, totalResults = totalResults n,
                  articles = Some (case articles n of None \<Rightarrow> [] | Some as \<Rightarrow> as),
                  metadata = \<lparr>fetched_at = isoformat_dt now,
                              expires_at = isoformat_dt expires,
                              query_params = (case params of None \<Rightarrow> [] | Some p \<Rightarrow> p)\<rparr>\<rparr>"
    have "save_news_to_file data_dir now news_data filename params files =
            Inr (Some (path_join data_dir filename), files(path_join data_dir filename \<mapsto> ?doc))"
      using t p by (simp add: save_news_to_file_def n Let_def)
    with e show ?thesis by (intro exI [of _ ?doc]) simp
  qed
  with save_news_to_file_falsy [of news_data data_dir now filename params files]
  show ?thesis by blast
qed

theorem save_news_to_file_contract_witness:
  "save_news_to_file ''/app/data'' clock0 None ''news_data.json'' None Map.empty =
     Inr (None, Map.empty) \<and>
   (\<exists>doc. save_news_to_file ''/app/data'' clock0 (Some result0) ''sales_triggers.json''
            (Some [(''days_back'', JInt 7)]) Map.empty =
          Inr (Some ''/app/data/sales_triggers.json'',
               [''/app/data/sales_triggers.json'' \<mapsto> doc]) \<and>
      fetched_at (metadata doc) = ''2026-11-03T17:04:05.000123'' \<and>
      expires_at (metadata doc) = ''2026-11-04T17:04:05.000123'' \<and>
      query_params (metadata doc) = [(''days_back'', JInt 7)] \<and>
      articles doc = Some [art ''u1''])"
proof -
  have p: "path_join ''/app/data'' ''sales_triggers.json'' = ''/app/data/sales_triggers.json''"
    by (simp add: path_join_def)
  have t: "truthy (Some result0)" "\<not> truthy None"
    by (simp_all add: truthy_def result0_def)
  from save_news_to_file_contract [OF valid_clock0, of None "''/app/data''" "''news_data.json''"
      None Map.empty] t(2)
  have a: "save_news_to_file ''/app/data'' clock0 None ''news_data.json'' None Map.empty =
     Inr (None, Map.empty)" by blast
  from save_news_to_file_contract [OF valid_clock0, of "Some result0" "''/app/data''"
      "''sales_triggers.json''" "Some [(''days_back'', JInt 7)]" Map.empty] t(1) plus_hours_clock0
  have "\<exists>doc. save_news_to_file ''/app/data'' clock0 (Some result0) ''sales_triggers.json''
            (Some [(''days_back'', JInt 7)]) Map.empty =
          Inr (Some (path_join ''/app/data'' ''sales_triggers.json''),
               [path_join ''/app/data'' ''sales_triggers.json'' \<mapsto> doc]) \<and>
      fetched_at (metadata doc) = isoformat_dt clock0 \<and>
      expires_at (metadata doc) =
        isoformat_dt (clock0\<lparr>on_date := \<lparr>year = 2026, month = 11, day = 4\<rparr>\<rparr>) \<and>
      query_params (metadata doc) = [(''days_back'', JInt 7)] \<and>
      articles doc = Some [art ''u1'']"
    by (fastforce simp: result0_def)
  with a show ?thesis unfolding p isoformat_clock0 by blast
qed

end
